theory Spec2Isabelle
  imports Complex_Main "HOL-Library.Multiset"
begin

section \<open>Magic Formula rotation engine: data model\<close>

text \<open>
  The development embeds \<^verbatim>\<open>src/magic_formula.py\<close> (class \<^verbatim>\<open>MagicFormula\<close>).
  Attributes of \<^verbatim>\<open>self\<close> that the algorithm owns are fields of the record \<open>algo\<close>;
  what the hosting platform supplies at each call (\<^verbatim>\<open>self.IsWarmingUp\<close>,
  \<^verbatim>\<open>self.Time.month\<close>) is the record \<open>host\<close>. Calls of \<^verbatim>\<open>self.Debug\<close> and the
  analysis loop over \<^verbatim>\<open>self.Portfolio\<close> in \<^verbatim>\<open>sell_securities\<close> only print and are left out.
  Numbers are idealised as reals (no rounding error). The two valuation ratios, which the
  algorithm sorts by, are Python floats that may be NaN (type \<open>pyfloat\<close>).
\<close>

type_synonym symbol = string

text \<open>A Python float is a number or NaN; every comparison with NaN is false.\<close>

datatype pyfloat = Num real | NaN

fun float_lt :: "pyfloat \<Rightarrow> pyfloat \<Rightarrow> bool" where
  "float_lt (Num a) (Num b) = (a < b)"
| "float_lt _ _ = False"

datatype error = AttributeError | KeyError

text \<open>The source names two sector codes only; every other code is \<open>OtherSector\<close>.\<close>

datatype MorningstarSectorCode = Utilities | FinancialServices | OtherSector nat

record BaseData =
  Symbol :: symbol

record CoarseFundamental = BaseData +
  HasFundamentalData :: bool
  DollarVolume :: real

text \<open>
  The nested attributes \<^verbatim>\<open>CompanyReference.CountryId\<close>, \<^verbatim>\<open>AssetClassification.MorningstarSectorCode\<close>,
  \<^verbatim>\<open>ValuationRatios.ForwardROA\<close> and so on are flattened into one record.
\<close>

record FineFundamental = BaseData +
  MarketCap :: real
  CountryId :: string
  PrimaryExchangeID :: string
  MorningstarSectorCode :: MorningstarSectorCode
  ForwardROA :: pyfloat
  EVToEBITDA :: pyfloat

text \<open>
  An element of \<^verbatim>\<open>changes.AddedSecurities\<close>: the handler reads its \<^verbatim>\<open>Symbol\<close>
  (and its \<^verbatim>\<open>Price\<close>, for the debug line only).
\<close>

type_synonym Security = BaseData

record SecurityChanges =
  AddedSecurities :: "Security list"

text \<open>
  What the algorithm sends to the platform: \<^verbatim>\<open>self.SetHoldings(symbol, fraction, False)\<close> and
  \<^verbatim>\<open>self.Liquidate(symbol)\<close>, kept in the order of the calls.
\<close>

datatype intent = SetHoldings symbol real bool | Liquidate symbol

text \<open>The value a universe-selection callback returns.\<close>

datatype selection = Unchanged | Selected "symbol list"

record host =
  IsWarmingUp :: bool
  Time_month :: int

text \<open>
  \<^verbatim>\<open>self.month\<close> does not exist until \<^verbatim>\<open>CoarseFilterFunction\<close> assigns it: \<open>None\<close> is the
  missing attribute. \<^verbatim>\<open>purchased_securities\<close> is a Python dict, which iterates in insertion
  order: an association list.
\<close>

record algo =
  lastMonth :: int
  month :: "int option"
  purchased_securities :: "(symbol \<times> int) list"
  NumberSecurtitiesPortfolio :: int
  MonthsToKeepSecurities :: int
  NumberSecuritiesPerMonth :: int
  percent_holding :: real
  intents :: "intent list"

section \<open>Python built-ins\<close>

text \<open>\<^verbatim>\<open>int(x)\<close> of a float truncates towards zero.\<close>

definition py_int :: "real \<Rightarrow> int" where
  "py_int x = (if 0 \<le> x then \<lfloor>x\<rfloor> else \<lceil>x\<rceil>)"

text \<open>\<^verbatim>\<open>round(x, n)\<close> rounds to \<open>n\<close> decimals, a tie going to the even digit.\<close>

definition py_round :: "real \<Rightarrow> nat \<Rightarrow> real" where
  "py_round x n =
     (let y = x * 10 ^ n; f = \<lfloor>y\<rfloor>; d = y - of_int f
      in of_int (if d < 1 / 2 then f else if 1 / 2 < d then f + 1
                 else if even f then f else f + 1) / 10 ^ n)"

text \<open>
  \<^verbatim>\<open>sorted(xs, key=k, reverse=r)\<close> is CPython's \<^verbatim>\<open>list.sort\<close> (as in CPython 3.8 to 3.12),
  which compares keys with \<^verbatim>\<open><\<close> only. On a list of fewer than 64 elements it finds the run
  the list starts with
  (\<^verbatim>\<open>count_run\<close>: not descending, or strictly descending and then reversed) and inserts
  the remaining elements one by one by binary search (\<^verbatim>\<open>binarysort\<close>). Longer lists are
  cut into such runs, which are then merged; where the keys are totally ordered the result
  is the same stable sort (\<open>listsort_stable\<close> below), and the procedure for short lists
  stands here for every length.
\<close>

fun run_asc :: "('a \<Rightarrow> 'a \<Rightarrow> bool) \<Rightarrow> 'a \<Rightarrow> 'a list \<Rightarrow> nat" where
  "run_asc lt prev [] = 0"
| "run_asc lt prev (x # xs) = (if lt x prev then 0 else Suc (run_asc lt x xs))"

fun run_desc :: "('a \<Rightarrow> 'a \<Rightarrow> bool) \<Rightarrow> 'a \<Rightarrow> 'a list \<Rightarrow> nat" where
  "run_desc lt prev [] = 0"
| "run_desc lt prev (x # xs) = (if lt x prev then Suc (run_desc lt x xs) else 0)"

text \<open>The length of the initial run, and whether it is a descending one.\<close>

fun count_run :: "('a \<Rightarrow> 'a \<Rightarrow> bool) \<Rightarrow> 'a list \<Rightarrow> nat \<times> bool" where
  "count_run lt [] = (0, False)"
| "count_run lt [x] = (1, False)"
| "count_run lt (x # y # xs) =
     (if lt y x then (2 + run_desc lt y xs, True) else (2 + run_asc lt y xs, False))"

text \<open>The binary search of \<^verbatim>\<open>binarysort\<close> for the place of \<open>pivot\<close> in \<open>xs[l:r]\<close>.\<close>

function bisect :: "('a \<Rightarrow> 'a \<Rightarrow> bool) \<Rightarrow> 'a \<Rightarrow> 'a list \<Rightarrow> nat \<Rightarrow> nat \<Rightarrow> nat" where
  "bisect lt pivot xs l r =
     (if l < r then
        let p = l + (r - l) div 2 in
        if lt pivot (xs ! p) then bisect lt pivot xs l p else bisect lt pivot xs (Suc p) r
      else l)"
  by pat_completeness auto
termination
  by (relation "measure (\<lambda>(lt, pivot, xs, l, r). r - l)") auto

declare bisect.simps [simp del]

text \<open>\<open>pre\<close> is the part already in order, \<open>pivot # rest\<close> what is still to insert.\<close>

fun binarysort :: "('a \<Rightarrow> 'a \<Rightarrow> bool) \<Rightarrow> 'a list \<Rightarrow> 'a list \<Rightarrow> 'a list" where
  "binarysort lt pre [] = pre"
| "binarysort lt pre (pivot # rest) =
     (let l = bisect lt pivot pre 0 (length pre)
      in binarysort lt (take l pre @ pivot # drop l pre) rest)"

definition listsort :: "('a \<Rightarrow> 'a \<Rightarrow> bool) \<Rightarrow> 'a list \<Rightarrow> 'a list" where
  "listsort lt xs =
     (if length xs < 2 then xs
      else case count_run lt xs of
        (n, descending) \<Rightarrow>
          binarysort lt (if descending then rev (take n xs) else take n xs) (drop n xs))"

text \<open>
  With \<^verbatim>\<open>reverse=True\<close> CPython reverses the list, sorts it and reverses the result. \<open>lt\<close>
  is the \<^verbatim>\<open><\<close> of the keys.
\<close>

definition py_sorted ::
  "('k \<Rightarrow> 'k \<Rightarrow> bool) \<Rightarrow> ('a \<Rightarrow> 'k) \<Rightarrow> bool \<Rightarrow> 'a list \<Rightarrow> 'a list" where
  "py_sorted lt key reverse xs =
     (if reverse then rev (listsort (\<lambda>a b. lt (key a) (key b)) (rev xs))
      else listsort (\<lambda>a b. lt (key a) (key b)) xs)"

text \<open>\<^verbatim>\<open>xs[:n]\<close>: a negative \<open>n\<close> counts from the end.\<close>

definition py_slice_to :: "'a list \<Rightarrow> int \<Rightarrow> 'a list" where
  "py_slice_to xs n =
     (if 0 \<le> n then take (nat n) xs else take (nat (int (length xs) + n)) xs)"

text \<open>\<^verbatim>\<open>k in d\<close>, \<^verbatim>\<open>d[k] = v\<close> (an existing key keeps its place) and \<^verbatim>\<open>d.pop(k)\<close>.\<close>

definition dict_keys :: "('k \<times> 'v) list \<Rightarrow> 'k list" where
  "dict_keys d = map fst d"

definition dict_in :: "'k \<Rightarrow> ('k \<times> 'v) list \<Rightarrow> bool" where
  "dict_in k d = (k \<in> set (dict_keys d))"

fun dict_set :: "('k \<times> 'v) list \<Rightarrow> 'k \<Rightarrow> 'v \<Rightarrow> ('k \<times> 'v) list" where
  "dict_set [] k v = [(k, v)]"
| "dict_set ((k', v') # d) k v =
     (if k' = k then (k, v) # d else (k', v') # dict_set d k v)"

definition dict_pop :: "('k \<times> 'v) list \<Rightarrow> 'k \<Rightarrow> error + ('k \<times> 'v) list" where
  "dict_pop d k =
     (if dict_in k d then Inr (filter (\<lambda>kv. fst kv \<noteq> k) d) else Inl KeyError)"

text \<open>A dict holds each key once.\<close>

definition dict_wf :: "('k \<times> 'v) list \<Rightarrow> bool" where
  "dict_wf d = distinct (dict_keys d)"

section \<open>The algorithm\<close>

text \<open>
  \<^verbatim>\<open>Initialize\<close>: the divisions are by the literals 24 and 12 and by their quotient 2,
  so no \<^verbatim>\<open>ZeroDivisionError\<close> can be raised.
\<close>

definition Initialize :: algo where
  "Initialize =
     (let slots = (24::int); months = (12::int);
          per_month = py_int (real_of_int slots / real_of_int months)
      in \<lparr> lastMonth = - 1,
           month = None,
           purchased_securities = [],
           NumberSecurtitiesPortfolio = slots,
           MonthsToKeepSecurities = months,
           NumberSecuritiesPerMonth = per_month,
           percent_holding =
             py_round ((real_of_int per_month / real_of_int slots) / real_of_int per_month) 3,
           intents = [] \<rparr>)"

definition CoarseFilterFunction ::
  "algo \<Rightarrow> host \<Rightarrow> CoarseFundamental list \<Rightarrow> selection \<times> algo" where
  "CoarseFilterFunction self h coarse =
     (if IsWarmingUp h then (Unchanged, self)
      else
        let self1 = self\<lparr>month := Some (Time_month h)\<rparr> in
        if month self1 = Some (lastMonth self1) then (Unchanged, self1)
        else
          \<comment> \<open>\<^verbatim>\<open>self.lastMonth = self.month\<close>, which was just set to \<^verbatim>\<open>self.Time.month\<close>\<close>
          let self2 = self1\<lparr>lastMonth := Time_month h\<rparr>;
              filtered = filter HasFundamentalData coarse;
              dollar_sorted = py_sorted (<) DollarVolume True filtered
          in (Selected (map Symbol dollar_sorted), self2))"

text \<open>The four filter stages of \<^verbatim>\<open>FineFundamentalFunction\<close>, up to \<^verbatim>\<open>filtered_ROA\<close>.\<close>

definition filtered_ROA :: "FineFundamental list \<Rightarrow> FineFundamental list" where
  "filtered_ROA fine =
     (let filtered_marketcap = filter (\<lambda>x. 50000000 < MarketCap x) fine;
          filtered_us = filter (\<lambda>x. CountryId x = ''USA'' \<and>
                          (PrimaryExchangeID x = ''NYS'' \<or> PrimaryExchangeID x = ''NAS''))
                          filtered_marketcap;
          filtered_indu = filter (\<lambda>x. MorningstarSectorCode x \<noteq> Utilities \<and>
                            MorningstarSectorCode x \<noteq> FinancialServices) filtered_us
      in filter (\<lambda>x. float_lt (Num (1 / 4)) (ForwardROA x)) filtered_indu)"

text \<open>The two sorts, up to \<^verbatim>\<open>sorted_ROA\<close>.\<close>

definition sorted_ROA :: "FineFundamental list \<Rightarrow> FineFundamental list" where
  "sorted_ROA fine =
     (let sorted_EVToEBITDA = py_sorted float_lt EVToEBITDA True (filtered_ROA fine)
      in py_sorted float_lt ForwardROA False sorted_EVToEBITDA)"

definition FineFundamentalFunction :: "algo \<Rightarrow> FineFundamental list \<Rightarrow> symbol list" where
  "FineFundamentalFunction self fine =
     (let not_holding =
            map Symbol (filter (\<lambda>f. \<not> dict_in (Symbol f) (purchased_securities self))
                          (sorted_ROA fine));
          final_list = py_slice_to not_holding (NumberSecuritiesPerMonth self)
      in final_list)"

text \<open>
  \<^verbatim>\<open>sell_securities\<close>: the first loop walks the items of the dict, liquidates the entries
  stored under \<open>month\<close> and collects their keys; the second loop pops the collected keys.
\<close>

fun sell_scan ::
  "(symbol \<times> int) list \<Rightarrow> int \<Rightarrow> intent list \<Rightarrow> symbol list \<Rightarrow> intent list \<times> symbol list" where
  "sell_scan [] m issued to_pop = (issued, to_pop)"
| "sell_scan ((key, val) # items) m issued to_pop =
     (if val = m then sell_scan items m (issued @ [Liquidate key]) (to_pop @ [key])
      else sell_scan items m issued to_pop)"

fun pop_all :: "(symbol \<times> int) list \<Rightarrow> symbol list \<Rightarrow> error + (symbol \<times> int) list" where
  "pop_all d [] = Inr d"
| "pop_all d (security # rest) =
     (case dict_pop d security of Inl e \<Rightarrow> Inl e | Inr d' \<Rightarrow> pop_all d' rest)"

definition sell_securities :: "algo \<Rightarrow> int \<Rightarrow> error + algo" where
  "sell_securities self m =
     (case sell_scan (purchased_securities self) m (intents self) [] of
        (issued, to_pop) \<Rightarrow>
          (case pop_all (purchased_securities self) to_pop of
             Inl e \<Rightarrow> Inl e
           | Inr d \<Rightarrow> Inr (self\<lparr>intents := issued, purchased_securities := d\<rparr>)))"

text \<open>The loop over \<^verbatim>\<open>changes.AddedSecurities\<close> in \<^verbatim>\<open>OnSecuritiesChanged\<close>.\<close>

fun buy_all :: "Security list \<Rightarrow> host \<Rightarrow> algo \<Rightarrow> algo" where
  "buy_all [] h self = self"
| "buy_all (security # rest) h self =
     buy_all rest h
       (self\<lparr>intents := intents self @ [SetHoldings (Symbol security) (percent_holding self) False],
             purchased_securities :=
               dict_set (purchased_securities self) (Symbol security) (Time_month h)\<rparr>)"

definition OnSecuritiesChanged :: "algo \<Rightarrow> host \<Rightarrow> SecurityChanges \<Rightarrow> error + algo" where
  "OnSecuritiesChanged self h changes =
     (case month self of
        None \<Rightarrow> Inl AttributeError
      | Some m \<Rightarrow>
          (case sell_securities self m of
             Inl e \<Rightarrow> Inl e
           | Inr self1 \<Rightarrow> Inr (buy_all (AddedSecurities changes) h self1)))"

section \<open>Notions the properties are stated with\<close>

text \<open>The keys the first loop of \<^verbatim>\<open>sell_securities\<close> meets under month \<open>m\<close>, in dict order.\<close>

definition due_keys :: "(symbol \<times> int) list \<Rightarrow> int \<Rightarrow> symbol list" where
  "due_keys d m = map fst (filter (\<lambda>kv. snd kv = m) d)"

text \<open>The number a float stands for (NaN stands for none; 0 is a placeholder).\<close>

fun num :: "pyfloat \<Rightarrow> real" where
  "num (Num r) = r"
| "num NaN = 0"

text \<open>
  The order the specification asks of the ranker, in its own words: a stable sort by forward
  return on assets, ascending, of the candidates already stably sorted by EV/EBITDA, descending.
  A stable descending sort is a stable ascending sort by the negated key.
\<close>

definition spec_sort_composition :: "FineFundamental list \<Rightarrow> FineFundamental list" where
  "spec_sort_composition cs =
     sort_key (\<lambda>x. num (ForwardROA x)) (sort_key (\<lambda>x. - num (EVToEBITDA x)) cs)"

text \<open>
  Replaying a log of intents: the symbols with an acquisition intent and no later liquidation
  intent.
\<close>

fun note_intent :: "symbol set \<Rightarrow> intent \<Rightarrow> symbol set" where
  "note_intent S (SetHoldings s w b) = insert s S"
| "note_intent S (Liquidate s) = S - {s}"

definition open_positions :: "intent list \<Rightarrow> symbol set" where
  "open_positions issued = foldl note_intent {} issued"

text \<open>What a run of handler calls issued: the part of the log written since \<open>before\<close>.\<close>

definition issued_since :: "algo \<Rightarrow> algo \<Rightarrow> intent list" where
  "issued_since before after = drop (length (intents before)) (intents after)"

section \<open>The platform's calls\<close>

text \<open>
  The platform calls the two handlers that change the algorithm's state in some order, each
  with its own reading of the clock and of the warm-up flag; an exception ends the run.
  (\<^verbatim>\<open>FineFundamentalFunction\<close> changes no state.)
\<close>

datatype event =
  CoarseTick host "CoarseFundamental list"
| SecuritiesChanged host SecurityChanges

fun step :: "algo \<Rightarrow> event \<Rightarrow> error + algo" where
  "step self (CoarseTick h coarse) = Inr (snd (CoarseFilterFunction self h coarse))"
| "step self (SecuritiesChanged h changes) = OnSecuritiesChanged self h changes"

fun run :: "algo \<Rightarrow> event list \<Rightarrow> error + algo" where
  "run self [] = Inr self"
| "run self (ev # evs) = (case step self ev of Inl e \<Rightarrow> Inl e | Inr self' \<Rightarrow> run self' evs)"

text \<open>A call of the coarse filter after warm-up: the only place that assigns \<^verbatim>\<open>self.month\<close>.\<close>

fun active_tick :: "event \<Rightarrow> bool" where
  "active_tick (CoarseTick h coarse) = (\<not> IsWarmingUp h)"
| "active_tick (SecuritiesChanged h changes) = False"

text \<open>
  A monthly cycle, as the specification describes the platform's pipeline: on the first
  trading day of month \<open>t\<close> (months counted from a January, so \<open>month_of t\<close> is the calendar
  month 1..12), after warm-up, the coarse filter runs; when it selects, the fine ranker runs on
  that month's fundamentals and the securities-changed handler receives its output as the
  added securities (the handler's docstring: "This is run every month"). The platform is
  not part of the source: the cycle is what the properties about months assume of it.
\<close>

definition month_of :: "nat \<Rightarrow> int" where
  "month_of t = int (t mod 12) + 1"

text \<open>The calendar month (1..12) that lies \<open>n\<close> months before the calendar month \<open>m\<close>.\<close>

definition months_before :: "int \<Rightarrow> int \<Rightarrow> int" where
  "months_before n m = (m - 1 - n) mod 12 + 1"

definition monthly_cycle ::
  "nat \<Rightarrow> CoarseFundamental list \<Rightarrow> FineFundamental list \<Rightarrow> algo \<Rightarrow> error + algo" where
  "monthly_cycle t coarse fine self =
     (let h = \<lparr>IsWarmingUp = False, Time_month = month_of t\<rparr> in
      case CoarseFilterFunction self h coarse of
        (Unchanged, self1) \<Rightarrow> Inr self1
      | (Selected syms, self1) \<Rightarrow>
          OnSecuritiesChanged self1 h
            \<lparr>AddedSecurities = map (\<lambda>s. \<lparr>Symbol = s\<rparr>) (FineFundamentalFunction self1 fine)\<rparr>)"

text \<open>\<open>run_cycles inp t n\<close> runs the cycles of the months \<open>t, \<dots>, t + n - 1\<close> on the inputs \<open>inp\<close>.\<close>

fun run_cycles ::
  "(nat \<Rightarrow> CoarseFundamental list \<times> FineFundamental list) \<Rightarrow> nat \<Rightarrow> nat \<Rightarrow> algo \<Rightarrow> error + algo" where
  "run_cycles inp t 0 self = Inr self"
| "run_cycles inp t (Suc n) self =
     (case run_cycles inp t n self of
        Inl e \<Rightarrow> Inl e
      | Inr self' \<Rightarrow> monthly_cycle (t + n) (fst (inp (t + n))) (snd (inp (t + n))) self')"

section \<open>Example data\<close>

definition stock :: "symbol \<Rightarrow> real \<Rightarrow> real \<Rightarrow> real \<Rightarrow> FineFundamental" where
  "stock s cap roa ev =
     \<lparr>Symbol = s, MarketCap = cap, CountryId = ''USA'', PrimaryExchangeID = ''NYS'',
      MorningstarSectorCode = OtherSector 0, ForwardROA = Num roa, EVToEBITDA = Num ev\<rparr>"

definition example_fine :: "FineFundamental list" where
  "example_fine =
     [stock ''A'' 60000000 (3 / 10) 10, stock ''B'' 70000000 (3 / 10) 12,
      stock ''C'' 40000000 (1 / 2) 12, stock ''D'' 90000000 (13 / 50) 1]"

text \<open>Four candidates with the same forward return on assets; Q has no EV/EBITDA (NaN).\<close>

definition example_nan :: "FineFundamental list" where
  "example_nan =
     [stock ''P'' 60000000 (3 / 10) 1, (stock ''Q'' 60000000 (3 / 10) 0)\<lparr>EVToEBITDA := NaN\<rparr>,
      stock ''R'' 60000000 (3 / 10) 3, stock ''S'' 60000000 (3 / 10) 2]"

definition example_coarse :: "CoarseFundamental list" where
  "example_coarse =
     [\<lparr>Symbol = ''A'', HasFundamentalData = True, DollarVolume = 5\<rparr>,
      \<lparr>Symbol = ''E'', HasFundamentalData = False, DollarVolume = 9\<rparr>,
      \<lparr>Symbol = ''B'', HasFundamentalData = True, DollarVolume = 7\<rparr>]"

definition active :: "int \<Rightarrow> host" where
  "active m = \<lparr>IsWarmingUp = False, Time_month = m\<rparr>"

definition warming :: "int \<Rightarrow> host" where
  "warming m = \<lparr>IsWarmingUp = True, Time_month = m\<rparr>"

text \<open>A state after warm-up, in January, holding A since a January and C since a February.\<close>

definition example_holding :: algo where
  "example_holding =
     Initialize\<lparr>lastMonth := 1, month := Some 1, purchased_securities := [(''A'', 1), (''C'', 2)]\<rparr>"

definition example_changes :: SecurityChanges where
  "example_changes = \<lparr>AddedSecurities = [\<lparr>Symbol = ''E''\<rparr>, \<lparr>Symbol = ''A''\<rparr>]\<rparr>"

text \<open>
  A run: a tick during warm-up, the January cycle buying E and A, the February cycle buying F,
  and the cycle of the next January buying G.
\<close>

definition example_events :: "event list" where
  "example_events =
     [CoarseTick (warming 12) example_coarse,
      CoarseTick (active 1) example_coarse, SecuritiesChanged (active 1) example_changes,
      CoarseTick (active 2) example_coarse,
      SecuritiesChanged (active 2) \<lparr>AddedSecurities = [\<lparr>Symbol = ''F''\<rparr>]\<rparr>,
      CoarseTick (active 1) example_coarse,
      SecuritiesChanged (active 1) \<lparr>AddedSecurities = [\<lparr>Symbol = ''G''\<rparr>]\<rparr>]"

text \<open>Monthly inputs: the example fundamentals in the first month, none afterwards.\<close>

definition example_inp :: "nat \<Rightarrow> CoarseFundamental list \<times> FineFundamental list" where
  "example_inp t = (example_coarse, if t = 0 then example_fine else [])"

text \<open>The equations that evaluate a \<^verbatim>\<open>sorted\<close> call on a given list.\<close>

lemmas sort_eval = py_sorted_def listsort_def bisect.simps Let_def

section \<open>Dict operations\<close>

lemma dict_keys_dict_set_list:
  "dict_keys (dict_set d k v) = (if k \<in> set (dict_keys d) then dict_keys d else dict_keys d @ [k])"
  by (induction d) (force simp: dict_keys_def)+

lemma dict_keys_dict_set: "set (dict_keys (dict_set d k v)) = insert k (set (dict_keys d))"
  by (simp add: dict_keys_dict_set_list insert_absorb)

lemma dict_wf_dict_set: "dict_wf d \<Longrightarrow> dict_wf (dict_set d k v)"
  by (simp add: dict_wf_def dict_keys_dict_set_list)

lemma map_of_dict_set: "map_of (dict_set d k v) = (map_of d)(k \<mapsto> v)"
  by (induction d) (auto simp: fun_eq_iff)

lemma dict_keys_filter_subset: "set (dict_keys (filter P d)) \<subseteq> set (dict_keys d)"
  by (auto simp: dict_keys_def)

lemma dict_wf_filter: "dict_wf d \<Longrightarrow> dict_wf (filter P d)"
  by (simp add: dict_wf_def dict_keys_def distinct_map_filter)

section \<open>The sell step\<close>

lemma sell_scan_eq:
  "sell_scan items m issued to_pop = (issued @ map Liquidate (due_keys items m), to_pop @ due_keys items m)"
  by (induction items arbitrary: issued to_pop) (auto simp: due_keys_def)

lemma pop_all_eq:
  "distinct ks \<Longrightarrow> set ks \<subseteq> set (dict_keys d) \<Longrightarrow>
   pop_all d ks = Inr (filter (\<lambda>kv. fst kv \<notin> set ks) d)"
proof (induction ks arbitrary: d)
  case Nil
  then show ?case by simp
next
  case (Cons k ks)
  let ?d' = "filter (\<lambda>kv. fst kv \<noteq> k) d"
  from Cons.prems have pop: "dict_pop d k = Inr ?d'"
    by (simp add: dict_pop_def dict_in_def)
  from Cons.prems have "set ks \<subseteq> set (dict_keys ?d')"
    by (force simp: dict_keys_def)
  with Cons.IH [of ?d'] Cons.prems have "pop_all ?d' ks = Inr (filter (\<lambda>kv. fst kv \<notin> set ks) ?d')"
    by simp
  moreover have "filter (\<lambda>kv. fst kv \<notin> set ks) ?d' = filter (\<lambda>kv. fst kv \<notin> set (k # ks)) d"
    by (induction d) auto
  ultimately show ?case using pop by simp
qed

lemma due_keys_distinct: "dict_wf d \<Longrightarrow> distinct (due_keys d m)"
  by (simp add: dict_wf_def dict_keys_def due_keys_def distinct_map_filter)

lemma due_keys_subset: "set (due_keys d m) \<subseteq> set (dict_keys d)"
  by (auto simp: due_keys_def dict_keys_def)

lemma not_due_filter:
  assumes "dict_wf d"
  shows "filter (\<lambda>kv. fst kv \<notin> set (due_keys d m)) d = filter (\<lambda>kv. snd kv \<noteq> m) d"
proof (rule filter_cong [OF refl])
  fix kv assume kv: "kv \<in> set d"
  from assms have inj: "inj_on fst (set d)"
    by (simp add: dict_wf_def dict_keys_def distinct_map)
  show "(fst kv \<notin> set (due_keys d m)) = (snd kv \<noteq> m)"
  proof
    assume "fst kv \<notin> set (due_keys d m)"
    with kv show "snd kv \<noteq> m" by (force simp: due_keys_def)
  next
    assume neq: "snd kv \<noteq> m"
    show "fst kv \<notin> set (due_keys d m)"
    proof
      assume "fst kv \<in> set (due_keys d m)"
      then obtain kv' where "kv' \<in> set d" "snd kv' = m" "fst kv' = fst kv"
        by (auto simp: due_keys_def)
      with inj kv have "kv' = kv" by (auto dest: inj_onD)
      with \<open>snd kv' = m\<close> neq show False by simp
    qed
  qed
qed

lemma sell_securities_eq:
  assumes "dict_wf (purchased_securities self)"
  shows "sell_securities self m =
    Inr (self\<lparr>intents := intents self @ map Liquidate (due_keys (purchased_securities self) m),
             purchased_securities := filter (\<lambda>kv. snd kv \<noteq> m) (purchased_securities self)\<rparr>)"
  using assms
  by (simp add: sell_securities_def sell_scan_eq pop_all_eq due_keys_distinct due_keys_subset not_due_filter)

section \<open>The buy step\<close>

lemma buy_all_intents:
  "intents (buy_all xs h self) =
   intents self @ map (\<lambda>x. SetHoldings (Symbol x) (percent_holding self) False) xs"
proof (induction xs arbitrary: self)
  case Nil show ?case by simp
next
  case (Cons x xs) show ?case by (simp add: Cons.IH)
qed

lemma buy_all_ledger:
  "purchased_securities (buy_all xs h self) =
   foldl (\<lambda>d x. dict_set d (Symbol x) (Time_month h)) (purchased_securities self) xs"
  by (induction xs arbitrary: self) simp_all

lemma buy_all_frame:
  "lastMonth (buy_all xs h self) = lastMonth self"
  "month (buy_all xs h self) = month self"
  "NumberSecurtitiesPortfolio (buy_all xs h self) = NumberSecurtitiesPortfolio self"
  "MonthsToKeepSecurities (buy_all xs h self) = MonthsToKeepSecurities self"
  "NumberSecuritiesPerMonth (buy_all xs h self) = NumberSecuritiesPerMonth self"
  "percent_holding (buy_all xs h self) = percent_holding self"
  by (induction xs arbitrary: self) simp_all

section \<open>The sort\<close>

lemma mset_take_drop: "mset (take n xs) + mset (drop n xs) = mset xs"
  by (metis append_take_drop_id mset_append)

lemma mset_binarysort: "mset (binarysort lt pre rest) = mset pre + mset rest"
proof (induction rest arbitrary: pre)
  case Nil
  show ?case by simp
next
  case (Cons pivot rest)
  let ?l = "bisect lt pivot pre 0 (length pre)"
  have "mset (take ?l pre @ pivot # drop ?l pre) = add_mset pivot (mset pre)"
    by (simp add: mset_take_drop)
  with Cons.IH [of "take ?l pre @ pivot # drop ?l pre"] show ?case
    by (simp add: Let_def)
qed

lemma mset_listsort: "mset (listsort lt xs) = mset xs"
proof (cases "length xs < 2")
  case True
  then show ?thesis by (simp add: listsort_def)
next
  case False
  obtain n d where c: "count_run lt xs = (n, d)" by (cases "count_run lt xs")
  with False show ?thesis
    by (simp add: listsort_def mset_binarysort mset_take_drop)
qed

lemma set_listsort: "set (listsort lt xs) = set xs"
  using mset_listsort [of lt xs] by (metis set_mset_mset)

lemma set_py_sorted: "set (py_sorted lt key r xs) = set xs"
  by (simp add: py_sorted_def set_listsort)

text \<open>On keys that \<open>lt\<close> orders totally.\<close>

lemma bisect_bounds:
  fixes f :: "'a \<Rightarrow> 'k::linorder"
  assumes ord: "\<And>x. x \<in> set pre \<Longrightarrow> lt pivot x = (f pivot < f x)"
    and srt: "sorted_wrt (\<lambda>a b. f a \<le> f b) pre"
  shows "l \<le> r \<Longrightarrow> r \<le> length pre \<Longrightarrow>
    (\<forall>x \<in> set (take l pre). f x \<le> f pivot) \<Longrightarrow>
    (\<forall>x \<in> set (drop r pre). f pivot < f x) \<Longrightarrow>
    bisect lt pivot pre l r \<le> length pre \<and>
    (\<forall>x \<in> set (take (bisect lt pivot pre l r) pre). f x \<le> f pivot) \<and>
    (\<forall>x \<in> set (drop (bisect lt pivot pre l r) pre). f pivot < f x)"
proof (induction "r - l" arbitrary: l r rule: less_induct)
  case less
  show ?case
  proof (cases "l < r")
    case False
    with less.prems have "l = r" by simp
    with less.prems show ?thesis by (simp add: bisect.simps [of lt pivot pre r r])
  next
    case True
    define p where "p = l + (r - l) div 2"
    from True have lp: "l \<le> p" and pr: "p < r" by (simp_all add: p_def)
    from pr less.prems have plen: "p < length pre" by simp
    from srt have split: "sorted_wrt (\<lambda>a b. f a \<le> f b) (take p pre @ pre ! p # drop (Suc p) pre)"
      using plen by (simp add: id_take_nth_drop [symmetric])
    show ?thesis
    proof (cases "lt pivot (pre ! p)")
      case lt: True
      with ord plen have lessp: "f pivot < f (pre ! p)" by simp
      from split have "\<forall>y \<in> set (drop (Suc p) pre). f (pre ! p) \<le> f y"
        by (simp add: sorted_wrt_append)
      with lessp have upper: "\<forall>x \<in> set (drop p pre). f pivot < f x"
        using plen by (auto simp: Cons_nth_drop_Suc [symmetric])
      have "p - l < r - l" using lp pr by simp
      from less.hyps [OF this lp _ less.prems(3) upper] plen
      have "bisect lt pivot pre l p \<le> length pre \<and>
        (\<forall>x \<in> set (take (bisect lt pivot pre l p) pre). f x \<le> f pivot) \<and>
        (\<forall>x \<in> set (drop (bisect lt pivot pre l p) pre). f pivot < f x)"
        by simp
      with True lt show ?thesis
        by (simp add: bisect.simps [of lt pivot pre l r] p_def [symmetric] Let_def)
    next
      case nlt: False
      with ord plen have le: "f (pre ! p) \<le> f pivot" by (simp add: not_less)
      from split have "\<forall>x \<in> set (take p pre). f x \<le> f (pre ! p)"
        by (simp add: sorted_wrt_append)
      with le have lower: "\<forall>x \<in> set (take (Suc p) pre). f x \<le> f pivot"
        using plen by (auto simp: take_Suc_conv_app_nth)
      have "r - Suc p < r - l" using lp pr by simp
      from less.hyps [OF this _ less.prems(2) lower less.prems(4)] pr
      have "bisect lt pivot pre (Suc p) r \<le> length pre \<and>
        (\<forall>x \<in> set (take (bisect lt pivot pre (Suc p) r) pre). f x \<le> f pivot) \<and>
        (\<forall>x \<in> set (drop (bisect lt pivot pre (Suc p) r) pre). f pivot < f x)"
        by simp
      with True nlt show ?thesis
        by (simp add: bisect.simps [of lt pivot pre l r] p_def [symmetric] Let_def)
    qed
  qed
qed


lemma insert_at_bisect:
  fixes f :: "'a \<Rightarrow> 'k::linorder"
  assumes ord: "\<And>x. x \<in> set pre \<Longrightarrow> lt pivot x = (f pivot < f x)"
    and srt: "sorted_wrt (\<lambda>a b. f a \<le> f b) pre"
  shows "sorted_wrt (\<lambda>a b. f a \<le> f b)
      (take (bisect lt pivot pre 0 (length pre)) pre @
       pivot # drop (bisect lt pivot pre 0 (length pre)) pre)"
    and "filter (\<lambda>x. f x = k)
      (take (bisect lt pivot pre 0 (length pre)) pre @
       pivot # drop (bisect lt pivot pre 0 (length pre)) pre) =
     filter (\<lambda>x. f x = k) (pre @ [pivot])"
proof -
  define l where "l = bisect lt pivot pre 0 (length pre)"
  have "bisect lt pivot pre 0 (length pre) \<le> length pre \<and>
    (\<forall>x \<in> set (take (bisect lt pivot pre 0 (length pre)) pre). f x \<le> f pivot) \<and>
    (\<forall>x \<in> set (drop (bisect lt pivot pre 0 (length pre)) pre). f pivot < f x)"
  proof (rule bisect_bounds [where f = f])
    show "\<And>x. x \<in> set pre \<Longrightarrow> lt pivot x = (f pivot < f x)" by (rule ord)
    show "sorted_wrt (\<lambda>a b. f a \<le> f b) pre" by (rule srt)
  qed simp_all
  then have low: "\<forall>x \<in> set (take l pre). f x \<le> f pivot"
    and high: "\<forall>x \<in> set (drop l pre). f pivot < f x"
    by (simp_all add: l_def)
  from srt have "sorted_wrt (\<lambda>a b. f a \<le> f b) (take l pre)"
    and "sorted_wrt (\<lambda>a b. f a \<le> f b) (drop l pre)"
    by (simp_all add: sorted_wrt_take sorted_wrt_drop)
  with low high have "sorted_wrt (\<lambda>a b. f a \<le> f b) (take l pre @ pivot # drop l pre)"
    by (fastforce simp: sorted_wrt_append)
  then show "sorted_wrt (\<lambda>a b. f a \<le> f b)
      (take (bisect lt pivot pre 0 (length pre)) pre @
       pivot # drop (bisect lt pivot pre 0 (length pre)) pre)"
    by (simp add: l_def)
  have pre: "filter (\<lambda>x. f x = k) pre =
      filter (\<lambda>x. f x = k) (take l pre) @ filter (\<lambda>x. f x = k) (drop l pre)"
    by (metis append_take_drop_id filter_append)
  have "filter (\<lambda>x. f x = k) (take l pre @ pivot # drop l pre) =
     filter (\<lambda>x. f x = k) (pre @ [pivot])"
  proof (cases "f pivot = k")
    case True
    with high have "filter (\<lambda>x. f x = k) (drop l pre) = []"
      by (auto simp: filter_empty_conv)
    with True pre show ?thesis by simp
  next
    case False
    with pre show ?thesis by simp
  qed
  then show "filter (\<lambda>x. f x = k)
      (take (bisect lt pivot pre 0 (length pre)) pre @
       pivot # drop (bisect lt pivot pre 0 (length pre)) pre) =
     filter (\<lambda>x. f x = k) (pre @ [pivot])"
    by (simp add: l_def)
qed

lemma binarysort_stable:
  fixes f :: "'a \<Rightarrow> 'k::linorder"
  assumes "\<And>a b. a \<in> set pre \<union> set rest \<Longrightarrow> b \<in> set pre \<union> set rest \<Longrightarrow>
             lt a b = (f a < f b)"
    and "sorted_wrt (\<lambda>a b. f a \<le> f b) pre"
  shows "sorted_wrt (\<lambda>a b. f a \<le> f b) (binarysort lt pre rest) \<and>
    (\<forall>k. filter (\<lambda>x. f x = k) (binarysort lt pre rest) = filter (\<lambda>x. f x = k) (pre @ rest))"
  using assms
proof (induction rest arbitrary: pre)
  case Nil
  then show ?case by simp
next
  case (Cons pivot rest)
  let ?l = "bisect lt pivot pre 0 (length pre)"
  let ?pre = "take ?l pre @ pivot # drop ?l pre"
  have ord1: "lt pivot x = (f pivot < f x)" if "x \<in> set pre" for x
    using Cons.prems(1) [of pivot x] that by simp
  note ins = insert_at_bisect [of pre lt pivot f, OF ord1 Cons.prems(2)]
  have "set (take ?l pre) \<union> set (drop ?l pre) = set pre"
    by (metis append_take_drop_id set_append)
  then have sets: "set ?pre = insert pivot (set pre)" by simp
  have ord': "lt a b = (f a < f b)" if "a \<in> set ?pre \<union> set rest" "b \<in> set ?pre \<union> set rest" for a b
    using Cons.prems(1) [of a b] that unfolding sets by auto
  have step: "binarysort lt pre (pivot # rest) = binarysort lt ?pre rest"
    by (simp add: Let_def)
  from Cons.IH [of ?pre, OF ord' ins(1)]
  have ih1: "sorted_wrt (\<lambda>a b. f a \<le> f b) (binarysort lt ?pre rest)"
    and ih2: "\<And>k. filter (\<lambda>x. f x = k) (binarysort lt ?pre rest) =
      filter (\<lambda>x. f x = k) (?pre @ rest)"
    by blast+
  show ?case
  proof (intro conjI allI)
    show "sorted_wrt (\<lambda>a b. f a \<le> f b) (binarysort lt pre (pivot # rest))"
      unfolding step by (rule ih1)
  next
    fix k
    have "filter (\<lambda>x. f x = k) (binarysort lt pre (pivot # rest)) =
        filter (\<lambda>x. f x = k) (?pre @ rest)"
      unfolding step by (rule ih2)
    also have "\<dots> = filter (\<lambda>x. f x = k) ?pre @ filter (\<lambda>x. f x = k) rest"
      by (simp only: filter_append)
    also have "\<dots> = filter (\<lambda>x. f x = k) (pre @ [pivot]) @ filter (\<lambda>x. f x = k) rest"
      by (simp only: ins(2))
    also have "\<dots> = filter (\<lambda>x. f x = k) (pre @ pivot # rest)"
      by simp
    finally show "filter (\<lambda>x. f x = k) (binarysort lt pre (pivot # rest)) =
        filter (\<lambda>x. f x = k) (pre @ pivot # rest)" .
  qed
qed

lemma run_asc_sorted:
  fixes f :: "'a \<Rightarrow> 'k::linorder"
  assumes "\<And>a b. a \<in> set (prev # xs) \<Longrightarrow> b \<in> set (prev # xs) \<Longrightarrow> lt a b = (f a < f b)"
  shows "sorted_wrt (\<lambda>a b. f a \<le> f b) (prev # take (run_asc lt prev xs) xs)"
  using assms
proof (induction xs arbitrary: prev)
  case Nil
  show ?case by simp
next
  case (Cons x xs)
  show ?case
  proof (cases "lt x prev")
    case True
    then show ?thesis by simp
  next
    case False
    with Cons.prems [of x prev] have le: "f prev \<le> f x" by (simp add: not_less)
    have "sorted_wrt (\<lambda>a b. f a \<le> f b) (x # take (run_asc lt x xs) xs)"
      by (rule Cons.IH) (rule Cons.prems, auto)
    then have tl: "sorted_wrt (\<lambda>a b. f a \<le> f b) (take (run_asc lt x xs) xs)"
      and hd: "\<forall>z \<in> set (take (run_asc lt x xs) xs). f x \<le> f z"
      by simp_all
    from hd le have "\<forall>z \<in> set (take (run_asc lt x xs) xs). f prev \<le> f z"
      by (blast intro: order_trans)
    with tl hd le False show ?thesis by simp
  qed
qed

lemma run_desc_sorted:
  fixes f :: "'a \<Rightarrow> 'k::linorder"
  assumes "\<And>a b. a \<in> set (prev # xs) \<Longrightarrow> b \<in> set (prev # xs) \<Longrightarrow> lt a b = (f a < f b)"
  shows "sorted_wrt (\<lambda>a b. f b < f a) (prev # take (run_desc lt prev xs) xs)"
  using assms
proof (induction xs arbitrary: prev)
  case Nil
  show ?case by simp
next
  case (Cons x xs)
  show ?case
  proof (cases "lt x prev")
    case False
    then show ?thesis by simp
  next
    case True
    with Cons.prems [of x prev] have le: "f x < f prev" by simp
    have "sorted_wrt (\<lambda>a b. f b < f a) (x # take (run_desc lt x xs) xs)"
      by (rule Cons.IH) (rule Cons.prems, auto)
    then have tl: "sorted_wrt (\<lambda>a b. f b < f a) (take (run_desc lt x xs) xs)"
      and hd: "\<forall>z \<in> set (take (run_desc lt x xs) xs). f z < f x"
      by simp_all
    from hd le have "\<forall>z \<in> set (take (run_desc lt x xs) xs). f z < f prev"
      by (blast intro: less_trans)
    with tl hd le True show ?thesis by simp
  qed
qed

lemma filter_rev_strict:
  fixes f :: "'a \<Rightarrow> 'k::linorder"
  assumes "sorted_wrt (\<lambda>a b. f b < f a) ys"
  shows "filter (\<lambda>x. f x = k) (rev ys) = filter (\<lambda>x. f x = k) ys"
proof -
  have "length (filter (\<lambda>x. f x = k) ys) \<le> 1"
    using assms
  proof (induction ys)
    case Nil
    show ?case by simp
  next
    case (Cons x ys)
    show ?case
    proof (cases "f x = k")
      case True
      with Cons.prems have "filter (\<lambda>x. f x = k) ys = []"
        by (auto simp: filter_empty_conv)
      with True show ?thesis by simp
    next
      case False
      with Cons show ?thesis by simp
    qed
  qed
  then have "rev (filter (\<lambda>x. f x = k) ys) = filter (\<lambda>x. f x = k) ys"
    by (cases "filter (\<lambda>x. f x = k) ys") auto
  then show ?thesis by (simp add: rev_filter)
qed

text \<open>Where \<open>lt\<close> compares a key that is totally ordered, the result is the stable sort.\<close>

lemma listsort_stable:
  fixes f :: "'a \<Rightarrow> 'k::linorder"
  assumes ord: "\<And>a b. a \<in> set xs \<Longrightarrow> b \<in> set xs \<Longrightarrow> lt a b = (f a < f b)"
  shows "listsort lt xs = sort_key f xs"
proof (cases xs)
  case Nil
  then show ?thesis by (simp add: listsort_def)
next
  case (Cons x ys)
  show ?thesis
  proof (cases ys)
    case Nil
    with Cons show ?thesis by (simp add: listsort_def)
  next
    case (Cons y zs)
    with \<open>xs = x # ys\<close> have xs: "xs = x # y # zs" by simp
    obtain n d where c: "count_run lt xs = (n, d)" by (cases "count_run lt xs")
    define pre where "pre = (if d then rev (take n xs) else take n xs)"
    have ord_y: "lt a b = (f a < f b)" if "a \<in> set (y # zs)" "b \<in> set (y # zs)" for a b
      using ord [of a b] that xs by auto
    have pre_ok: "sorted_wrt (\<lambda>a b. f a \<le> f b) pre \<and>
        (\<forall>k. filter (\<lambda>x. f x = k) pre = filter (\<lambda>x. f x = k) (take n xs))"
    proof (cases "lt y x")
      case True
      with c xs have n: "n = 2 + run_desc lt y zs" and d: "d" by auto
      from True ord [of y x] xs have "f y < f x" by simp
      with run_desc_sorted [of y zs lt f, OF ord_y]
      have strict: "sorted_wrt (\<lambda>a b. f b < f a) (take n xs)"
        by (auto simp: n xs)
      then have "sorted_wrt (\<lambda>a b. f a < f b) (rev (take n xs))"
        by (simp add: sorted_wrt_rev)
      then have "sorted_wrt (\<lambda>a b. f a \<le> f b) (rev (take n xs))"
        by (rule sorted_wrt_mono_rel [rotated]) simp
      with filter_rev_strict [OF strict] d show ?thesis by (simp add: pre_def)
    next
      case False
      with c xs have n: "n = 2 + run_asc lt y zs" and d: "\<not> d" by auto
      from False ord [of y x] xs have "f x \<le> f y" by (simp add: not_less)
      with run_asc_sorted [of y zs lt f, OF ord_y]
      have "sorted_wrt (\<lambda>a b. f a \<le> f b) (take n xs)"
        by (auto simp: n xs)
      with d show ?thesis by (simp add: pre_def)
    qed
    have sets: "set pre \<union> set (drop n xs) \<subseteq> set xs"
      using set_take_subset [of n xs] set_drop_subset [of n xs] by (auto simp: pre_def)
    have ord': "lt a b = (f a < f b)"
      if "a \<in> set pre \<union> set (drop n xs)" "b \<in> set pre \<union> set (drop n xs)" for a b
      using ord [of a b] that sets by blast
    from pre_ok have srt: "sorted_wrt (\<lambda>a b. f a \<le> f b) pre" by simp
    note bs = binarysort_stable [of pre "drop n xs" lt f, OF ord' srt]
    have res: "listsort lt xs = binarysort lt pre (drop n xs)"
      using c xs by (simp add: listsort_def pre_def)
    have "sort_key f xs = listsort lt xs"
    proof (rule properties_for_sort_key)
      show "mset (listsort lt xs) = mset xs" by (rule mset_listsort)
    next
      from bs show "sorted (map f (listsort lt xs))"
        by (simp add: res sorted_map)
    next
      fix k
      from bs have "filter (\<lambda>x. f x = f k) (binarysort lt pre (drop n xs)) =
          filter (\<lambda>x. f x = f k) (pre @ drop n xs)"
        by blast
      then have "filter (\<lambda>x. f x = f k) (listsort lt xs) =
          filter (\<lambda>x. f x = f k) pre @ filter (\<lambda>x. f x = f k) (drop n xs)"
        by (simp only: res filter_append)
      also from pre_ok have "filter (\<lambda>x. f x = f k) pre = filter (\<lambda>x. f x = f k) (take n xs)"
        by blast
      also have "filter (\<lambda>x. f x = f k) (take n xs) @ filter (\<lambda>x. f x = f k) (drop n xs) =
          filter (\<lambda>x. f x = f k) xs"
        by (metis append_take_drop_id filter_append)
      finally have "filter (\<lambda>x. f x = f k) (listsort lt xs) = filter (\<lambda>x. f x = f k) xs" .
      moreover have "(\<lambda>x. f k = f x) = (\<lambda>x. f x = f k)" by auto
      ultimately show "filter (\<lambda>x. f k = f x) (listsort lt xs) = filter (\<lambda>x. f k = f x) xs"
        by simp
    qed
    then show ?thesis by simp
  qed
qed

section \<open>The coarse filter\<close>

text \<open>
  C8. A call of the coarse filter while the platform is warming up returns the
  "no change" signal and leaves the whole state of the algorithm as it was; in particular
  the last processed month and the holding ledger are not modified.
\<close>

theorem warm_up_tick_is_noop:
  "IsWarmingUp h \<Longrightarrow>
   CoarseFilterFunction self h coarse = (Unchanged, self) \<and>
   lastMonth (snd (CoarseFilterFunction self h coarse)) = lastMonth self \<and>
   purchased_securities (snd (CoarseFilterFunction self h coarse)) = purchased_securities self"
  by (simp add: CoarseFilterFunction_def)

theorem warm_up_tick_is_noop_witness:
  "IsWarmingUp (warming 3) \<and>
   CoarseFilterFunction (Initialize\<lparr>purchased_securities := [(''A'', 2)]\<rparr>) (warming 3) example_coarse =
     (Unchanged, Initialize\<lparr>purchased_securities := [(''A'', 2)]\<rparr>)"
  using warm_up_tick_is_noop
    [of "warming 3" "Initialize\<lparr>purchased_securities := [(''A'', 2)]\<rparr>" example_coarse]
  by (simp add: warming_def)

text \<open>
  C5. A second call of the coarse filter in the same month, on the state the first call
  left and with the warm-up flag not cleared in between, returns the "no change" signal and
  changes nothing; and the first call after warm-up in a month other than the last processed
  one selects and records that month as the last processed one.
\<close>

theorem coarse_idempotent_within_month:
  "(Time_month h2 = Time_month h \<and> (IsWarmingUp h \<longrightarrow> IsWarmingUp h2) \<longrightarrow>
      CoarseFilterFunction (snd (CoarseFilterFunction self h c1)) h2 c2 =
        (Unchanged, snd (CoarseFilterFunction self h c1))) \<and>
   (\<not> IsWarmingUp h \<and> lastMonth self \<noteq> Time_month h \<longrightarrow>
      fst (CoarseFilterFunction self h c1) \<noteq> Unchanged \<and>
      lastMonth (snd (CoarseFilterFunction self h c1)) = Time_month h)"
  by (simp add: CoarseFilterFunction_def Let_def)

theorem coarse_idempotent_within_month_witness:
  "\<not> IsWarmingUp (active 3) \<and> lastMonth Initialize \<noteq> Time_month (active 3) \<and>
   fst (CoarseFilterFunction Initialize (active 3) example_coarse) = Selected [''B'', ''A''] \<and>
   lastMonth (snd (CoarseFilterFunction Initialize (active 3) example_coarse)) = 3 \<and>
   CoarseFilterFunction (snd (CoarseFilterFunction Initialize (active 3) example_coarse))
       (active 3) example_coarse =
     (Unchanged, snd (CoarseFilterFunction Initialize (active 3) example_coarse))"
  using coarse_idempotent_within_month
    [of "active 3" "active 3" Initialize example_coarse example_coarse]
  by (simp add: active_def Initialize_def CoarseFilterFunction_def Let_def sort_eval
      example_coarse_def)

section \<open>The fine ranker\<close>

lemma set_py_slice_to: "set (py_slice_to xs n) \<subseteq> set xs"
  by (auto simp: py_slice_to_def dest: in_set_takeD)

lemma length_py_slice_to: "0 \<le> n \<Longrightarrow> int (length (py_slice_to xs n)) \<le> n"
  by (simp add: py_slice_to_def)

lemma set_sorted_ROA: "set (sorted_ROA fine) = set (filtered_ROA fine)"
  by (simp add: sorted_ROA_def set_py_sorted)

lemma Initialize_quota:
  "NumberSecuritiesPerMonth Initialize =
   NumberSecurtitiesPortfolio Initialize div MonthsToKeepSecurities Initialize"
  by (simp add: Initialize_def py_int_def Let_def)

text \<open>
  C1. Whatever the list of fine-fundamental snapshots and whatever the holding ledger, the
  list the fine ranker returns is no longer than the acquisition quota and holds no symbol
  that is a key of the ledger. (The quota is a field the algorithm never changes after
  \<^verbatim>\<open>Initialize\<close>, where it is 24 div 12 = 2; the bound holds for every quota that is not
  negative.)
\<close>

theorem fine_ranker_quota_bound:
  "0 \<le> NumberSecuritiesPerMonth self \<Longrightarrow>
   int (length (FineFundamentalFunction self fine)) \<le> NumberSecuritiesPerMonth self \<and>
   (\<forall>s \<in> set (FineFundamentalFunction self fine).
      s \<notin> set (dict_keys (purchased_securities self)))"
proof (intro conjI ballI)
  assume "0 \<le> NumberSecuritiesPerMonth self"
  then show "int (length (FineFundamentalFunction self fine)) \<le> NumberSecuritiesPerMonth self"
    by (simp add: FineFundamentalFunction_def Let_def length_py_slice_to)
next
  fix s assume "s \<in> set (FineFundamentalFunction self fine)"
  then have "s \<in> set (map Symbol (filter (\<lambda>f. \<not> dict_in (Symbol f) (purchased_securities self))
                 (sorted_ROA fine)))"
    using set_py_slice_to by (fastforce simp: FineFundamentalFunction_def Let_def)
  then show "s \<notin> set (dict_keys (purchased_securities self))"
    by (auto simp: dict_in_def)
qed

theorem fine_ranker_quota_bound_witness:
  "0 \<le> NumberSecuritiesPerMonth (Initialize\<lparr>purchased_securities := [(''D'', 2)]\<rparr>) \<and>
   NumberSecuritiesPerMonth (Initialize\<lparr>purchased_securities := [(''D'', 2)]\<rparr>) = 24 div 12 \<and>
   FineFundamentalFunction (Initialize\<lparr>purchased_securities := [(''D'', 2)]\<rparr>) example_fine =
     [''B'', ''A''] \<and>
   int (length (FineFundamentalFunction (Initialize\<lparr>purchased_securities := [(''D'', 2)]\<rparr>)
     example_fine)) \<le> 2 \<and>
   ''D'' \<in> set (dict_keys (purchased_securities (Initialize\<lparr>purchased_securities := [(''D'', 2)]\<rparr>))) \<and>
   ''D'' \<notin> set (FineFundamentalFunction (Initialize\<lparr>purchased_securities := [(''D'', 2)]\<rparr>)
      example_fine)"
proof -
  let ?self = "Initialize\<lparr>purchased_securities := [(''D'', 2)]\<rparr>"
  have q: "NumberSecuritiesPerMonth ?self = 2"
    by (simp add: Initialize_def py_int_def Let_def)
  have out: "FineFundamentalFunction ?self example_fine = [''B'', ''A'']"
    by (simp add: FineFundamentalFunction_def sorted_ROA_def filtered_ROA_def sort_eval
        py_slice_to_def dict_in_def dict_keys_def Initialize_def py_int_def example_fine_def
        stock_def Let_def)
  from q have "0 \<le> NumberSecuritiesPerMonth ?self" by simp
  from fine_ranker_quota_bound [OF this, of example_fine] q out show ?thesis
    by (auto simp: dict_keys_def)
qed

text \<open>
  C9. A snapshot whose market capitalisation is not above 50,000,000 is not among the
  ranked candidates, whatever its other fields, and every symbol the fine ranker returns is
  the symbol of an input snapshot with a market capitalisation above 50,000,000.
\<close>

theorem market_cap_floor:
  "(\<not> 50000000 < MarketCap x \<longrightarrow> x \<notin> set (sorted_ROA fine)) \<and>
   (\<forall>s \<in> set (FineFundamentalFunction self fine).
      \<exists>y \<in> set fine. Symbol y = s \<and> 50000000 < MarketCap y)"
proof (intro conjI impI ballI)
  assume "\<not> 50000000 < MarketCap x"
  then show "x \<notin> set (sorted_ROA fine)"
    by (simp add: set_sorted_ROA filtered_ROA_def)
next
  fix s assume "s \<in> set (FineFundamentalFunction self fine)"
  then have "s \<in> Symbol ` set (sorted_ROA fine)"
    using set_py_slice_to by (fastforce simp: FineFundamentalFunction_def Let_def)
  then show "\<exists>y \<in> set fine. Symbol y = s \<and> 50000000 < MarketCap y"
    by (auto simp: set_sorted_ROA filtered_ROA_def)
qed

theorem market_cap_floor_witness:
  "\<not> 50000000 < MarketCap (stock ''C'' 40000000 (1 / 2) 12) \<and>
   stock ''C'' 40000000 (1 / 2) 12 \<in> set example_fine \<and>
   stock ''C'' 40000000 (1 / 2) 12 \<notin> set (sorted_ROA example_fine) \<and>
   FineFundamentalFunction Initialize example_fine = [''D'', ''B''] \<and>
   (\<exists>y \<in> set example_fine. Symbol y = ''D'' \<and> 50000000 < MarketCap y) \<and>
   ''C'' \<notin> set (FineFundamentalFunction Initialize example_fine)"
proof -
  have cap: "\<not> 50000000 < MarketCap (stock ''C'' 40000000 (1 / 2) 12)"
    by (simp add: stock_def)
  have out: "FineFundamentalFunction Initialize example_fine = [''D'', ''B'']"
    by (simp add: FineFundamentalFunction_def sorted_ROA_def filtered_ROA_def sort_eval
        py_slice_to_def dict_in_def dict_keys_def Initialize_def py_int_def example_fine_def
        stock_def Let_def)
  from market_cap_floor [of "stock ''C'' 40000000 (1 / 2) 12" example_fine Initialize] cap out
  show ?thesis by (simp add: example_fine_def stock_def)
qed

section \<open>The order of the ranked candidates\<close>

lemma rev_sort_key_rev:
  fixes key :: "'a \<Rightarrow> real"
  shows "rev (sort_key key (rev xs)) = sort_key (\<lambda>x. - key x) xs"
proof -
  let ?ys = "rev (sort_key key (rev xs))"
  have "sort_key (\<lambda>x. - key x) xs = ?ys"
  proof (rule properties_for_sort_key)
    show "mset ?ys = mset xs" by simp
  next
    fix k
    have "filter (\<lambda>x. key x = key k) (sort_key key (rev xs)) = filter (\<lambda>x. key x = key k) (rev xs)"
      by (rule sort_key_stable)
    then have "rev (filter (\<lambda>x. key x = key k) (sort_key key (rev xs))) =
        rev (filter (\<lambda>x. key x = key k) (rev xs))"
      by simp
    then have "filter (\<lambda>x. key x = key k) ?ys = filter (\<lambda>x. key x = key k) xs"
      by (simp add: rev_filter)
    moreover have "(\<lambda>x. - key k = - key x) = (\<lambda>x. key x = key k)"
      by auto
    ultimately show "filter (\<lambda>x. - key k = - key x) ?ys = filter (\<lambda>x. - key k = - key x) xs"
      by simp
  next
    have "sorted (map key (sort_key key (rev xs)))" by (rule sorted_sort_key)
    then have "sorted_wrt (\<lambda>x y. key x \<le> key y) (sort_key key (rev xs))"
      by (simp add: sorted_wrt_map)
    then have "sorted_wrt (\<lambda>x y. - key x \<le> - key y) ?ys"
      by (simp add: sorted_wrt_rev)
    then show "sorted (map (\<lambda>x. - key x) ?ys)"
      by (simp add: sorted_wrt_map)
  qed
  then show ?thesis by simp
qed

lemma float_lt_num: "a \<noteq> NaN \<Longrightarrow> b \<noteq> NaN \<Longrightarrow> float_lt a b = (num a < num b)"
  by (cases a; cases b) simp_all

text \<open>A \<^verbatim>\<open>sorted\<close> call on float keys none of which is NaN is the stable sort.\<close>

lemma py_sorted_numbers:
  assumes "\<And>x. x \<in> set xs \<Longrightarrow> key x \<noteq> NaN"
  shows "py_sorted float_lt key False xs = sort_key (\<lambda>x. num (key x)) xs"
    and "py_sorted float_lt key True xs = sort_key (\<lambda>x. - num (key x)) xs"
proof -
  have asc: "listsort (\<lambda>a b. float_lt (key a) (key b)) ys = sort_key (\<lambda>x. num (key x)) ys"
    if "set ys \<subseteq> set xs" for ys
  proof (rule listsort_stable)
    fix a b assume "a \<in> set ys" "b \<in> set ys"
    with that assms have "key a \<noteq> NaN" "key b \<noteq> NaN" by auto
    then show "float_lt (key a) (key b) = (num (key a) < num (key b))"
      by (rule float_lt_num)
  qed
  show "py_sorted float_lt key False xs = sort_key (\<lambda>x. num (key x)) xs"
    by (simp add: py_sorted_def asc)
  have "py_sorted float_lt key True xs = rev (sort_key (\<lambda>x. num (key x)) (rev xs))"
    by (simp add: py_sorted_def asc)
  then show "py_sorted float_lt key True xs = sort_key (\<lambda>x. - num (key x)) xs"
    by (simp only: rev_sort_key_rev)
qed

lemma filtered_ROA_number: "x \<in> set (filtered_ROA fine) \<Longrightarrow> ForwardROA x \<noteq> NaN"
  by (auto simp: filtered_ROA_def)

text \<open>The second sort compares numbers only, whatever the first one did.\<close>

lemma sorted_ROA_second_sort:
  "sorted_ROA fine =
   sort_key (\<lambda>x. num (ForwardROA x)) (py_sorted float_lt EVToEBITDA True (filtered_ROA fine))"
proof -
  have "ForwardROA x \<noteq> NaN"
    if "x \<in> set (py_sorted float_lt EVToEBITDA True (filtered_ROA fine))" for x
    using that by (simp add: set_py_sorted filtered_ROA_number)
  from py_sorted_numbers(1) [of _ ForwardROA, OF this] show ?thesis
    by (simp add: sorted_ROA_def)
qed

lemma sorted_wrt_within_key:
  assumes "\<And>r. sorted_wrt R (filter (\<lambda>x. f x = r) zs)"
  shows "sorted_wrt (\<lambda>a b. f a = f b \<longrightarrow> R a b) zs"
  using assms
proof (induction zs)
  case Nil
  show ?case by simp
next
  case (Cons z zs)
  have tail: "sorted_wrt R (filter (\<lambda>x. f x = r) zs)" for r
    using Cons.prems [of r] by (cases "f z = r") simp_all
  have head: "R z y" if "y \<in> set zs" "f z = f y" for y
    using Cons.prems [of "f z"] that by simp
  from Cons.IH [OF tail] head show ?case by simp
qed

lemma sorted_ROA_ties:
  assumes "\<And>x. x \<in> set (filtered_ROA fine) \<Longrightarrow> EVToEBITDA x \<noteq> NaN"
  shows "sorted_wrt
     (\<lambda>a b. ForwardROA a = ForwardROA b \<longrightarrow> num (EVToEBITDA b) \<le> num (EVToEBITDA a))
     (sorted_ROA fine)"
proof -
  let ?ev = "sort_key (\<lambda>x. - num (EVToEBITDA x)) (filtered_ROA fine)"
  have ev: "py_sorted float_lt EVToEBITDA True (filtered_ROA fine) = ?ev"
    by (rule py_sorted_numbers(2)) (rule assms)
  have "sorted_wrt (\<lambda>a b. num (EVToEBITDA b) \<le> num (EVToEBITDA a))
      (filter (\<lambda>x. num (ForwardROA x) = r) (sorted_ROA fine))" for r
  proof -
    have "sorted (map (\<lambda>x. - num (EVToEBITDA x)) ?ev)" by (rule sorted_sort_key)
    then have "sorted_wrt (\<lambda>a b. num (EVToEBITDA b) \<le> num (EVToEBITDA a)) ?ev"
      by (simp add: sorted_wrt_map)
    then have "sorted_wrt (\<lambda>a b. num (EVToEBITDA b) \<le> num (EVToEBITDA a))
        (filter (\<lambda>x. num (ForwardROA x) = r) ?ev)"
      by (rule sorted_wrt_filter)
    moreover have "filter (\<lambda>x. num (ForwardROA x) = r) (sorted_ROA fine) =
        filter (\<lambda>x. num (ForwardROA x) = r) ?ev"
      by (simp add: sorted_ROA_second_sort ev sort_key_stable)
    ultimately show ?thesis by simp
  qed
  then have "sorted_wrt
     (\<lambda>a b. num (ForwardROA a) = num (ForwardROA b) \<longrightarrow>
              num (EVToEBITDA b) \<le> num (EVToEBITDA a))
     (sorted_ROA fine)"
    by (rule sorted_wrt_within_key)
  then show ?thesis
    by (rule sorted_wrt_mono_rel [rotated]) simp
qed

text \<open>
  C2, as the specification states it, fails: no filter stage looks at EV/EBITDA, and a
  candidate whose EV/EBITDA is NaN makes the descending sort leave a list out of order (every
  \<^verbatim>\<open><\<close> test between neighbours of the reversed list fails, so the sort takes it for a
  single run and changes nothing). Of four candidates with the same forward return on assets, P with EV/EBITDA 1 is ranked before
  R with EV/EBITDA 3, and the fine ranker returns P and Q.
\<close>

theorem nan_breaks_tie_order:
  "filtered_ROA example_nan = example_nan \<and>
   map Symbol (sorted_ROA example_nan) = [''P'', ''Q'', ''R'', ''S''] \<and>
   map EVToEBITDA (sorted_ROA example_nan) = [Num 1, NaN, Num 3, Num 2] \<and>
   map ForwardROA (sorted_ROA example_nan) =
     [Num (3 / 10), Num (3 / 10), Num (3 / 10), Num (3 / 10)] \<and>
   float_lt (EVToEBITDA (sorted_ROA example_nan ! 0)) (EVToEBITDA (sorted_ROA example_nan ! 2)) \<and>
   sorted_ROA example_nan \<noteq> spec_sort_composition (filtered_ROA example_nan) \<and>
   FineFundamentalFunction Initialize example_nan = [''P'', ''Q'']"
proof -
  have flt: "filtered_ROA example_nan = example_nan"
    by (simp add: filtered_ROA_def example_nan_def stock_def)
  have ranked: "sorted_ROA example_nan = example_nan"
    by (simp add: sorted_ROA_def flt) (simp add: sort_eval example_nan_def stock_def)
  have spec: "map Symbol (spec_sort_composition example_nan) = [''R'', ''S'', ''P'', ''Q'']"
    by (simp add: spec_sort_composition_def example_nan_def stock_def)
  have "spec_sort_composition example_nan \<noteq> example_nan"
  proof
    assume "spec_sort_composition example_nan = example_nan"
    with spec show False by (simp add: example_nan_def stock_def)
  qed
  moreover have "FineFundamentalFunction Initialize example_nan = [''P'', ''Q'']"
    by (simp only: FineFundamentalFunction_def ranked Let_def)
      (simp add: py_slice_to_def dict_in_def dict_keys_def Initialize_def py_int_def Let_def
        example_nan_def stock_def)
  ultimately show ?thesis
    by (simp add: flt ranked) (simp add: example_nan_def stock_def)
qed

text \<open>
  C2, amended. The ranking always ascends in forward return on assets. Where no candidate
  that survives the four filter stages has NaN for EV/EBITDA, the ranking is the stable sort by
  forward return on assets, ascending, applied to the stable sort by EV/EBITDA, descending;
  candidates with equal forward return on assets then stand in descending order of EV/EBITDA,
  and the fine ranker returns the symbols of that ranking which are not held, cut to the
  quota.
\<close>

theorem sort_composition:
  "sorted (map (\<lambda>x. num (ForwardROA x)) (sorted_ROA fine)) \<and>
   ((\<forall>x \<in> set (filtered_ROA fine). EVToEBITDA x \<noteq> NaN) \<longrightarrow>
      sorted_ROA fine = spec_sort_composition (filtered_ROA fine) \<and>
      sorted_wrt
        (\<lambda>a b. ForwardROA a = ForwardROA b \<longrightarrow> num (EVToEBITDA b) \<le> num (EVToEBITDA a))
        (sorted_ROA fine) \<and>
      FineFundamentalFunction self fine =
        py_slice_to
          (map Symbol (filter (\<lambda>f. Symbol f \<notin> set (dict_keys (purchased_securities self)))
             (spec_sort_composition (filtered_ROA fine))))
          (NumberSecuritiesPerMonth self))"
proof (intro conjI impI)
  show "sorted (map (\<lambda>x. num (ForwardROA x)) (sorted_ROA fine))"
    by (simp only: sorted_ROA_second_sort sorted_sort_key)
next
  assume "\<forall>x \<in> set (filtered_ROA fine). EVToEBITDA x \<noteq> NaN"
  then have numbers: "\<And>x. x \<in> set (filtered_ROA fine) \<Longrightarrow> EVToEBITDA x \<noteq> NaN"
    by blast
  have "py_sorted float_lt EVToEBITDA True (filtered_ROA fine) =
      sort_key (\<lambda>x. - num (EVToEBITDA x)) (filtered_ROA fine)"
    by (rule py_sorted_numbers(2)) (rule numbers)
  then show eq: "sorted_ROA fine = spec_sort_composition (filtered_ROA fine)"
    by (simp add: sorted_ROA_second_sort spec_sort_composition_def)
  show "sorted_wrt
        (\<lambda>a b. ForwardROA a = ForwardROA b \<longrightarrow> num (EVToEBITDA b) \<le> num (EVToEBITDA a))
        (sorted_ROA fine)"
    by (rule sorted_ROA_ties) (rule numbers)
  show "FineFundamentalFunction self fine =
        py_slice_to
          (map Symbol (filter (\<lambda>f. Symbol f \<notin> set (dict_keys (purchased_securities self)))
             (spec_sort_composition (filtered_ROA fine))))
          (NumberSecuritiesPerMonth self)"
    by (simp add: FineFundamentalFunction_def dict_in_def eq [symmetric])
qed

theorem sort_composition_witness:
  "map EVToEBITDA (filtered_ROA example_fine) = [Num 10, Num 12, Num 1] \<and>
   map Symbol (sorted_ROA example_fine) = [''D'', ''B'', ''A''] \<and>
   map Symbol (spec_sort_composition (filtered_ROA example_fine)) = [''D'', ''B'', ''A''] \<and>
   map ForwardROA (sorted_ROA example_fine) = [Num (13 / 50), Num (3 / 10), Num (3 / 10)] \<and>
   map EVToEBITDA (sorted_ROA example_fine) = [Num 1, Num 12, Num 10] \<and>
   FineFundamentalFunction Initialize example_fine = [''D'', ''B'']"
proof -
  have flt: "filtered_ROA example_fine =
      [stock ''A'' 60000000 (3 / 10) 10, stock ''B'' 70000000 (3 / 10) 12,
       stock ''D'' 90000000 (13 / 50) 1]"
    by (simp add: filtered_ROA_def example_fine_def stock_def)
  then have numbers: "\<forall>x \<in> set (filtered_ROA example_fine). EVToEBITDA x \<noteq> NaN"
    by (simp add: stock_def)
  note ranking = sort_composition [of example_fine Initialize, THEN conjunct2, THEN mp, OF numbers]
  have spec: "spec_sort_composition (filtered_ROA example_fine) = sorted_ROA example_fine"
    by (rule ranking [THEN conjunct1, symmetric])
  have ranked: "sorted_ROA example_fine =
      [stock ''D'' 90000000 (13 / 50) 1, stock ''B'' 70000000 (3 / 10) 12,
       stock ''A'' 60000000 (3 / 10) 10]"
    unfolding spec [symmetric]
    by (simp add: flt spec_sort_composition_def stock_def)
  have out: "FineFundamentalFunction Initialize example_fine = [''D'', ''B'']"
    by (simp add: FineFundamentalFunction_def ranked py_slice_to_def dict_in_def dict_keys_def
        Initialize_def py_int_def stock_def Let_def)
  have keys: "map Symbol (sorted_ROA example_fine) = [''D'', ''B'', ''A'']"
    "map ForwardROA (sorted_ROA example_fine) = [Num (13 / 50), Num (3 / 10), Num (3 / 10)]"
    "map EVToEBITDA (sorted_ROA example_fine) = [Num 1, Num 12, Num 10]"
    "map EVToEBITDA (filtered_ROA example_fine) = [Num 10, Num 12, Num 1]"
    by (simp_all add: ranked flt stock_def)
  from spec keys out show ?thesis by simp
qed

section \<open>The securities-changed handler\<close>

lemma pop_all_Inr:
  "pop_all d ks = Inr d' \<Longrightarrow> d' = filter (\<lambda>kv. fst kv \<notin> set ks) d"
proof (induction ks arbitrary: d)
  case Nil
  then show ?case by simp
next
  case (Cons k ks)
  let ?d1 = "filter (\<lambda>kv. fst kv \<noteq> k) d"
  from Cons.prems have rest: "pop_all ?d1 ks = Inr d'"
    by (simp add: dict_pop_def split: if_splits)
  have "filter (\<lambda>kv. fst kv \<notin> set ks) ?d1 = filter (\<lambda>kv. fst kv \<notin> set (k # ks)) d"
    by (induction d) auto
  with Cons.IH [OF rest] show ?case by simp
qed

text \<open>The state the sell step leaves when it selects under month \<open>m\<close> and raises nothing.\<close>

lemma sell_securities_Inr:
  assumes "sell_securities self m = Inr mid"
  shows "mid = self\<lparr>intents := intents self @ map Liquidate (due_keys (purchased_securities self) m),
                   purchased_securities :=
                     filter (\<lambda>kv. fst kv \<notin> set (due_keys (purchased_securities self) m))
                       (purchased_securities self)\<rparr>"
proof -
  let ?d = "purchased_securities self"
  from assms obtain d' where pop: "pop_all ?d (due_keys ?d m) = Inr d'"
    and mid: "mid = self\<lparr>intents := intents self @ map Liquidate (due_keys ?d m),
                         purchased_securities := d'\<rparr>"
    by (auto simp: sell_securities_def sell_scan_eq split: sum.splits)
  from pop_all_Inr [OF pop] mid show ?thesis by simp
qed

lemma OnSecuritiesChanged_Inr:
  assumes "OnSecuritiesChanged self h changes = Inr self'"
  shows "\<exists>m. month self = Some m \<and>
    self' = buy_all (AddedSecurities changes) h
      (self\<lparr>intents := intents self @ map Liquidate (due_keys (purchased_securities self) m),
            purchased_securities :=
              filter (\<lambda>kv. fst kv \<notin> set (due_keys (purchased_securities self) m))
                (purchased_securities self)\<rparr>)"
proof (cases "month self")
  case None
  with assms show ?thesis by (simp add: OnSecuritiesChanged_def)
next
  case (Some m)
  with assms obtain mid where sell: "sell_securities self m = Inr mid"
    and buy: "self' = buy_all (AddedSecurities changes) h mid"
    by (auto simp: OnSecuritiesChanged_def split: sum.splits)
  from sell_securities_Inr [OF sell] buy Some show ?thesis by simp
qed

lemma OnSecuritiesChanged_wf:
  assumes "month self = Some m" and "dict_wf (purchased_securities self)"
  shows "OnSecuritiesChanged self h changes =
    Inr (buy_all (AddedSecurities changes) h
      (self\<lparr>intents := intents self @ map Liquidate (due_keys (purchased_securities self) m),
            purchased_securities := filter (\<lambda>kv. snd kv \<noteq> m) (purchased_securities self)\<rparr>))"
  using assms by (simp add: OnSecuritiesChanged_def sell_securities_eq)

text \<open>The handler's effect on the log and on the ledger.\<close>

lemma sell_precedes_buy_aux:
  "OnSecuritiesChanged self h changes = Inr self' \<Longrightarrow>
   \<exists>m. month self = Some m \<and>
     intents self' =
       intents self @ map Liquidate (due_keys (purchased_securities self) m) @
       map (\<lambda>x. SetHoldings (Symbol x) (percent_holding self) False) (AddedSecurities changes) \<and>
     purchased_securities self' =
       foldl (\<lambda>d x. dict_set d (Symbol x) (Time_month h))
         (filter (\<lambda>kv. fst kv \<notin> set (due_keys (purchased_securities self) m))
            (purchased_securities self))
         (AddedSecurities changes)"
proof -
  assume "OnSecuritiesChanged self h changes = Inr self'"
  from OnSecuritiesChanged_Inr [OF this] obtain m where m: "month self = Some m"
    and eq: "self' = buy_all (AddedSecurities changes) h
      (self\<lparr>intents := intents self @ map Liquidate (due_keys (purchased_securities self) m),
            purchased_securities :=
              filter (\<lambda>kv. fst kv \<notin> set (due_keys (purchased_securities self) m))
                (purchased_securities self)\<rparr>)"
    by blast
  have "intents self' =
       intents self @ map Liquidate (due_keys (purchased_securities self) m) @
       map (\<lambda>x. SetHoldings (Symbol x) (percent_holding self) False) (AddedSecurities changes)"
    by (simp add: eq buy_all_intents)
  moreover have "purchased_securities self' =
       foldl (\<lambda>d x. dict_set d (Symbol x) (Time_month h))
         (filter (\<lambda>kv. fst kv \<notin> set (due_keys (purchased_securities self) m))
            (purchased_securities self))
         (AddedSecurities changes)"
    by (simp add: eq buy_all_ledger)
  ultimately show ?thesis using m by blast
qed

text \<open>
  C7. In one run of the handler every liquidation intent of the sell step is issued, and
  the entries it liquidates are gone from the ledger, before the buy step issues its first
  acquisition intent or inserts an entry: the intents the handler adds are the liquidations
  followed by the acquisitions, and the new ledger is the pruned ledger with the acquired
  symbols then stored into it.
\<close>

theorem sell_precedes_buy:
  "OnSecuritiesChanged self h changes = Inr self' \<Longrightarrow>
   \<exists>m. month self = Some m \<and>
     intents self' =
       intents self @ map Liquidate (due_keys (purchased_securities self) m) @
       map (\<lambda>x. SetHoldings (Symbol x) (percent_holding self) False) (AddedSecurities changes) \<and>
     purchased_securities self' =
       foldl (\<lambda>d x. dict_set d (Symbol x) (Time_month h))
         (filter (\<lambda>kv. fst kv \<notin> set (due_keys (purchased_securities self) m))
            (purchased_securities self))
         (AddedSecurities changes)"
  by (rule sell_precedes_buy_aux)

theorem sell_precedes_buy_witness:
  "\<exists>self'. OnSecuritiesChanged example_holding (active 1) example_changes = Inr self' \<and>
     intents self' =
       [Liquidate ''A'', SetHoldings ''E'' (21 / 500) False, SetHoldings ''A'' (21 / 500) False] \<and>
     purchased_securities self' = [(''C'', 2), (''E'', 1), (''A'', 1)]"
proof -
  have wf: "dict_wf (purchased_securities example_holding)"
    by (simp add: example_holding_def dict_wf_def dict_keys_def)
  have m: "month example_holding = Some 1"
    by (simp add: example_holding_def)
  from OnSecuritiesChanged_wf [OF m wf, of "active 1" example_changes]
  obtain self' where ok: "OnSecuritiesChanged example_holding (active 1) example_changes = Inr self'"
    by blast
  from sell_precedes_buy [OF ok] m
  have "intents self' =
       intents example_holding @ map Liquidate (due_keys (purchased_securities example_holding) 1) @
       map (\<lambda>x. SetHoldings (Symbol x) (percent_holding example_holding) False)
         (AddedSecurities example_changes)"
    and "purchased_securities self' =
       foldl (\<lambda>d x. dict_set d (Symbol x) (Time_month (active 1)))
         (filter (\<lambda>kv. fst kv \<notin> set (due_keys (purchased_securities example_holding) 1))
            (purchased_securities example_holding))
         (AddedSecurities example_changes)"
    by auto
  then have "intents self' =
       [Liquidate ''A'', SetHoldings ''E'' (21 / 500) False, SetHoldings ''A'' (21 / 500) False]"
    and "purchased_securities self' = [(''C'', 2), (''E'', 1), (''A'', 1)]"
    by (simp_all add: example_holding_def example_changes_def due_keys_def active_def
        Initialize_def py_int_def py_round_def Let_def)
  with ok show ?thesis by blast
qed

section \<open>Runs of the platform's calls\<close>

lemma coarse_frame:
  "purchased_securities (snd (CoarseFilterFunction self h coarse)) = purchased_securities self"
  "intents (snd (CoarseFilterFunction self h coarse)) = intents self"
  "percent_holding (snd (CoarseFilterFunction self h coarse)) = percent_holding self"
  "NumberSecuritiesPerMonth (snd (CoarseFilterFunction self h coarse)) =
     NumberSecuritiesPerMonth self"
  "MonthsToKeepSecurities (snd (CoarseFilterFunction self h coarse)) = MonthsToKeepSecurities self"
  by (simp_all add: CoarseFilterFunction_def Let_def)

lemma coarse_month:
  "month (snd (CoarseFilterFunction self h coarse)) =
     (if IsWarmingUp h then month self else Some (Time_month h))"
  by (simp add: CoarseFilterFunction_def Let_def)

lemma keys_foldl_dict_set:
  "set (dict_keys (foldl (\<lambda>d x. dict_set d (Symbol x) t) d xs)) =
     set (dict_keys d) \<union> Symbol ` set xs"
  by (induction xs arbitrary: d) (auto simp: dict_keys_dict_set)

lemma wf_foldl_dict_set:
  "dict_wf d \<Longrightarrow> dict_wf (foldl (\<lambda>d x. dict_set d (Symbol x) t) d xs)"
  by (induction xs arbitrary: d) (simp_all add: dict_wf_dict_set)

lemma keys_filter_not_in:
  "set (dict_keys (filter (\<lambda>kv. fst kv \<notin> K) d)) = set (dict_keys d) - K"
  by (force simp: dict_keys_def)

lemma replay_liquidations: "foldl note_intent S (map Liquidate ks) = S - set ks"
  by (induction ks arbitrary: S) auto

lemma replay_acquisitions:
  "foldl note_intent S (map (\<lambda>x. SetHoldings (Symbol x) w b) xs) = S \<union> Symbol ` set xs"
  by (induction xs arbitrary: S) auto

lemma handler_keys:
  assumes "OnSecuritiesChanged self h changes = Inr self'" and "month self = Some m"
  shows "set (dict_keys (purchased_securities self')) =
      (set (dict_keys (purchased_securities self)) - set (due_keys (purchased_securities self) m))
      \<union> Symbol ` set (AddedSecurities changes)"
    and "open_positions (intents self') =
      (open_positions (intents self) - set (due_keys (purchased_securities self) m))
      \<union> Symbol ` set (AddedSecurities changes)"
    and "issued_since self self' =
      map Liquidate (due_keys (purchased_securities self) m) @
      map (\<lambda>x. SetHoldings (Symbol x) (percent_holding self) False) (AddedSecurities changes)"
proof -
  from sell_precedes_buy_aux [OF assms(1)] assms(2)
  have log: "intents self' =
       intents self @ map Liquidate (due_keys (purchased_securities self) m) @
       map (\<lambda>x. SetHoldings (Symbol x) (percent_holding self) False) (AddedSecurities changes)"
    and led: "purchased_securities self' =
       foldl (\<lambda>d x. dict_set d (Symbol x) (Time_month h))
         (filter (\<lambda>kv. fst kv \<notin> set (due_keys (purchased_securities self) m))
            (purchased_securities self))
         (AddedSecurities changes)"
    by auto
  show "set (dict_keys (purchased_securities self')) =
      (set (dict_keys (purchased_securities self)) - set (due_keys (purchased_securities self) m))
      \<union> Symbol ` set (AddedSecurities changes)"
    by (simp add: led keys_foldl_dict_set keys_filter_not_in)
  show "open_positions (intents self') =
      (open_positions (intents self) - set (due_keys (purchased_securities self) m))
      \<union> Symbol ` set (AddedSecurities changes)"
    by (simp add: log open_positions_def replay_liquidations replay_acquisitions)
  show "issued_since self self' =
      map Liquidate (due_keys (purchased_securities self) m) @
      map (\<lambda>x. SetHoldings (Symbol x) (percent_holding self) False) (AddedSecurities changes)"
    by (simp add: log issued_since_def)
qed

lemma handler_preserves:
  assumes "OnSecuritiesChanged self h changes = Inr self'"
  shows "month self' = month self" and "month self \<noteq> None"
    and "percent_holding self' = percent_holding self"
    and "dict_wf (purchased_securities self) \<Longrightarrow> dict_wf (purchased_securities self')"
proof -
  from OnSecuritiesChanged_Inr [OF assms] obtain m where m: "month self = Some m"
    and eq: "self' = buy_all (AddedSecurities changes) h
      (self\<lparr>intents := intents self @ map Liquidate (due_keys (purchased_securities self) m),
            purchased_securities :=
              filter (\<lambda>kv. fst kv \<notin> set (due_keys (purchased_securities self) m))
                (purchased_securities self)\<rparr>)"
    by blast
  show "month self' = month self" by (simp add: eq buy_all_frame)
  show "month self \<noteq> None" by (simp add: m)
  show "percent_holding self' = percent_holding self" by (simp add: eq buy_all_frame)
  show "dict_wf (purchased_securities self')" if "dict_wf (purchased_securities self)"
    using that by (simp add: eq buy_all_ledger wf_foldl_dict_set dict_wf_filter)
qed

text \<open>What one call keeps.\<close>

lemma step_ledger_inv:
  assumes "step self ev = Inr self'"
    and "set (dict_keys (purchased_securities self)) = open_positions (intents self)"
  shows "set (dict_keys (purchased_securities self')) = open_positions (intents self')"
proof (cases ev)
  case (CoarseTick h coarse)
  with assms show ?thesis by (auto simp: coarse_frame)
next
  case (SecuritiesChanged h changes)
  with assms(1) have ok: "OnSecuritiesChanged self h changes = Inr self'" by simp
  from OnSecuritiesChanged_Inr [OF ok] obtain m where m: "month self = Some m" by blast
  from handler_keys(1,2) [OF ok m] assms(2) show ?thesis by simp
qed

lemma step_wf:
  assumes "step self ev = Inr self'" and "dict_wf (purchased_securities self)"
  shows "dict_wf (purchased_securities self')"
proof (cases ev)
  case (CoarseTick h coarse)
  with assms show ?thesis by (auto simp: coarse_frame)
next
  case (SecuritiesChanged h changes)
  with assms(1) have "OnSecuritiesChanged self h changes = Inr self'" by simp
  from handler_preserves(4) [OF this assms(2)] show ?thesis .
qed

lemma step_month:
  assumes "step self ev = Inr self'"
  shows "(month self' \<noteq> None) = (month self \<noteq> None \<or> active_tick ev)"
proof (cases ev)
  case (CoarseTick h coarse)
  with assms show ?thesis by (auto simp: coarse_month)
next
  case (SecuritiesChanged h changes)
  with assms have "OnSecuritiesChanged self h changes = Inr self'" by simp
  from handler_preserves(1,2) [OF this] SecuritiesChanged show ?thesis by simp
qed

lemma step_weight:
  assumes "step self ev = Inr self'"
  shows "percent_holding self' = percent_holding self"
    and "SetHoldings k w b \<in> set (intents self') \<Longrightarrow>
         SetHoldings k w b \<in> set (intents self) \<or> w = percent_holding self"
proof -
  show "percent_holding self' = percent_holding self"
  proof (cases ev)
    case (CoarseTick h coarse)
    with assms show ?thesis by (auto simp: coarse_frame)
  next
    case (SecuritiesChanged h changes)
    with assms have "OnSecuritiesChanged self h changes = Inr self'" by simp
    from handler_preserves(3) [OF this] show ?thesis .
  qed
  show "SetHoldings k w b \<in> set (intents self) \<or> w = percent_holding self"
    if mem: "SetHoldings k w b \<in> set (intents self')"
  proof (cases ev)
    case (CoarseTick h coarse)
    with assms mem show ?thesis by (auto simp: coarse_frame)
  next
    case (SecuritiesChanged h changes)
    with assms have ok: "OnSecuritiesChanged self h changes = Inr self'" by simp
    from sell_precedes_buy_aux [OF ok] mem show ?thesis by auto
  qed
qed

lemma run_ledger_inv:
  "run self evs = Inr self' \<Longrightarrow>
   set (dict_keys (purchased_securities self)) = open_positions (intents self) \<Longrightarrow>
   set (dict_keys (purchased_securities self')) = open_positions (intents self')"
proof (induction evs arbitrary: self)
  case Nil
  then show ?case by simp
next
  case (Cons ev evs)
  from Cons.prems(1) obtain mid where st: "step self ev = Inr mid" and rest: "run mid evs = Inr self'"
    by (auto split: sum.splits)
  from Cons.IH [OF rest step_ledger_inv [OF st Cons.prems(2)]] show ?case .
qed

lemma run_wf:
  "run self evs = Inr self' \<Longrightarrow> dict_wf (purchased_securities self) \<Longrightarrow>
   dict_wf (purchased_securities self')"
proof (induction evs arbitrary: self)
  case Nil
  then show ?case by simp
next
  case (Cons ev evs)
  from Cons.prems(1) obtain mid where st: "step self ev = Inr mid" and rest: "run mid evs = Inr self'"
    by (auto split: sum.splits)
  from Cons.IH [OF rest step_wf [OF st Cons.prems(2)]] show ?case .
qed

lemma run_month:
  "run self evs = Inr self' \<Longrightarrow>
   (month self' \<noteq> None) = (month self \<noteq> None \<or> (\<exists>ev \<in> set evs. active_tick ev))"
proof (induction evs arbitrary: self)
  case Nil
  then show ?case by simp
next
  case (Cons ev evs)
  from Cons.prems(1) obtain mid where st: "step self ev = Inr mid" and rest: "run mid evs = Inr self'"
    by (auto split: sum.splits)
  from Cons.IH [OF rest] step_month [OF st] show ?case by auto
qed

lemma run_weight:
  "run self evs = Inr self' \<Longrightarrow>
   percent_holding self' = percent_holding self \<and>
   (SetHoldings k w b \<in> set (intents self') \<longrightarrow>
      SetHoldings k w b \<in> set (intents self) \<or> w = percent_holding self)"
proof (induction evs arbitrary: self)
  case Nil
  then show ?case by simp
next
  case (Cons ev evs)
  from Cons.prems(1) obtain mid where st: "step self ev = Inr mid" and rest: "run mid evs = Inr self'"
    by (auto split: sum.splits)
  from Cons.IH [OF rest] step_weight(1) [OF st] step_weight(2) [OF st] show ?case by auto
qed

section \<open>The target weight\<close>

text \<open>
  C4, as the specification states it, fails: the weight the algorithm stores is not exactly
  one over the number of slots.
\<close>

theorem target_weight_not_one_over_slots:
  "percent_holding Initialize \<noteq> 1 / real_of_int (NumberSecurtitiesPortfolio Initialize)"
  by (simp add: Initialize_def py_int_def py_round_def Let_def)

text \<open>
  C4, amended. The weight is one over the number of slots rounded to three decimals: with 24
  slots and a horizon of 12 months it is 0.042, and every acquisition intent issued in a run
  that starts with \<^verbatim>\<open>Initialize\<close> carries this weight.
\<close>

theorem target_weight_rounded:
  "NumberSecurtitiesPortfolio Initialize = 24 \<and> MonthsToKeepSecurities Initialize = 12 \<and>
   percent_holding Initialize =
     py_round (1 / real_of_int (NumberSecurtitiesPortfolio Initialize)) 3 \<and>
   percent_holding Initialize = 42 / 1000 \<and>
   (run Initialize evs = Inr self \<longrightarrow> SetHoldings k w b \<in> set (intents self) \<longrightarrow> w = 42 / 1000)"
proof -
  have cfg: "NumberSecurtitiesPortfolio Initialize = 24" "MonthsToKeepSecurities Initialize = 12"
    by (simp_all add: Initialize_def Let_def)
  have pct: "percent_holding Initialize = 42 / 1000"
    by (simp add: Initialize_def py_int_def py_round_def Let_def)
  have rnd: "py_round (1 / real_of_int (NumberSecurtitiesPortfolio Initialize)) 3 = 42 / 1000"
    by (simp add: cfg py_round_def Let_def)
  have "w = 42 / 1000" if "run Initialize evs = Inr self" "SetHoldings k w b \<in> set (intents self)"
  proof -
    have "intents Initialize = []" by (simp add: Initialize_def Let_def)
    with run_weight [OF that(1), of k w b] that(2) pct show ?thesis by simp
  qed
  with cfg pct rnd show ?thesis by simp
qed

theorem target_weight_rounded_witness:
  "\<exists>self. run Initialize example_events = Inr self \<and>
     SetHoldings ''G'' (percent_holding Initialize) False \<in> set (intents self) \<and>
     percent_holding Initialize = 42 / 1000"
proof -
  have "\<exists>self. run Initialize example_events = Inr self \<and>
     SetHoldings ''G'' (percent_holding Initialize) False \<in> set (intents self)"
    by (simp add: example_events_def example_coarse_def example_changes_def active_def
        warming_def Initialize_def py_int_def py_round_def CoarseFilterFunction_def
        OnSecuritiesChanged_def sell_securities_def dict_pop_def dict_in_def dict_keys_def
        sort_eval Let_def)
  then obtain self where ok: "run Initialize example_events = Inr self"
    and mem: "SetHoldings ''G'' (percent_holding Initialize) False \<in> set (intents self)"
    by blast
  from target_weight_rounded [of example_events self "''G''" "percent_holding Initialize" False]
    ok mem
  have "percent_holding Initialize = 42 / 1000" by blast
  with ok mem show ?thesis by blast
qed

section \<open>The ledger and the open positions\<close>

lemma monthly_cycle_run:
  "\<exists>evs. monthly_cycle t coarse fine self = run self evs"
proof -
  let ?h = "\<lparr>IsWarmingUp = False, Time_month = month_of t\<rparr>"
  obtain sel self1 where c: "CoarseFilterFunction self ?h coarse = (sel, self1)"
    by (cases "CoarseFilterFunction self ?h coarse")
  show ?thesis
  proof (cases sel)
    case Unchanged
    with c have "monthly_cycle t coarse fine self = run self [CoarseTick ?h coarse]"
      by (simp add: monthly_cycle_def)
    then show ?thesis by blast
  next
    case (Selected syms)
    with c have "monthly_cycle t coarse fine self =
        run self [CoarseTick ?h coarse,
          SecuritiesChanged ?h
            \<lparr>AddedSecurities = map (\<lambda>s. \<lparr>Symbol = s\<rparr>) (FineFundamentalFunction self1 fine)\<rparr>]"
      by (simp add: monthly_cycle_def split: sum.splits)
    then show ?thesis by blast
  qed
qed

lemma run_append:
  "run self (evs @ evs') = (case run self evs of Inl e \<Rightarrow> Inl e | Inr mid \<Rightarrow> run mid evs')"
  by (induction evs arbitrary: self) (auto split: sum.splits)

lemma run_cycles_run:
  "\<exists>evs. run_cycles inp t n self = run self evs"
proof (induction n)
  case 0
  have "run_cycles inp t 0 self = run self []" by simp
  then show ?case by blast
next
  case (Suc n)
  then obtain evs where evs: "run_cycles inp t n self = run self evs" by blast
  show ?case
  proof (cases "run self evs")
    case (Inl e)
    with evs have "run_cycles inp t (Suc n) self = run self evs" by simp
    then show ?thesis by blast
  next
    case (Inr mid)
    from monthly_cycle_run [of "t + n" "fst (inp (t + n))" "snd (inp (t + n))" mid]
    obtain evs' where "monthly_cycle (t + n) (fst (inp (t + n))) (snd (inp (t + n))) mid =
        run mid evs'"
      by blast
    with evs Inr have "run_cycles inp t (Suc n) self = run self (evs @ evs')"
      by (simp add: run_append)
    then show ?thesis by blast
  qed
qed

text \<open>
  C6. After any sequence of the platform's calls that starts with \<^verbatim>\<open>Initialize\<close> (an empty
  ledger), and so after any sequence of monthly cycles, the keys of the ledger are the symbols
  with an acquisition intent and no later liquidation intent; and one run of the handler
  removes the keys of exactly the symbols it liquidates and inserts a key for each symbol it
  buys.
\<close>

theorem ledger_bijection:
  "(run Initialize evs = Inr self \<longrightarrow>
      set (dict_keys (purchased_securities self)) = open_positions (intents self)) \<and>
   (run_cycles inp t n Initialize = Inr self \<longrightarrow>
      set (dict_keys (purchased_securities self)) = open_positions (intents self)) \<and>
   (OnSecuritiesChanged self0 h changes = Inr self1 \<longrightarrow>
      set (dict_keys (purchased_securities self1)) =
        (set (dict_keys (purchased_securities self0))
           - {k. Liquidate k \<in> set (issued_since self0 self1)})
        \<union> {k. \<exists>w b. SetHoldings k w b \<in> set (issued_since self0 self1)})"
proof (intro conjI impI)
  have init: "set (dict_keys (purchased_securities Initialize)) = open_positions (intents Initialize)"
    by (simp add: Initialize_def Let_def dict_keys_def open_positions_def)
  show "set (dict_keys (purchased_securities self)) = open_positions (intents self)"
    if "run Initialize evs = Inr self"
    using run_ledger_inv [OF that init] .
  show "set (dict_keys (purchased_securities self)) = open_positions (intents self)"
    if r: "run_cycles inp t n Initialize = Inr self"
  proof -
    from run_cycles_run [of inp t n Initialize] r obtain evs' where "run Initialize evs' = Inr self"
      by auto
    from run_ledger_inv [OF this init] show ?thesis .
  qed
  show "set (dict_keys (purchased_securities self1)) =
        (set (dict_keys (purchased_securities self0))
           - {k. Liquidate k \<in> set (issued_since self0 self1)})
        \<union> {k. \<exists>w b. SetHoldings k w b \<in> set (issued_since self0 self1)}"
    if ok: "OnSecuritiesChanged self0 h changes = Inr self1"
  proof -
    from OnSecuritiesChanged_Inr [OF ok] obtain m where m: "month self0 = Some m" by blast
    note facts = handler_keys [OF ok m]
    have "{k. Liquidate k \<in> set (issued_since self0 self1)} =
        set (due_keys (purchased_securities self0) m)"
      by (auto simp: facts(3))
    moreover have "{k. \<exists>w b. SetHoldings k w b \<in> set (issued_since self0 self1)} =
        Symbol ` set (AddedSecurities changes)"
      by (auto simp: facts(3))
    ultimately show ?thesis by (simp add: facts(1))
  qed
qed

theorem ledger_bijection_witness:
  "\<exists>self. run Initialize example_events = Inr self \<and>
     purchased_securities self = [(''F'', 2), (''G'', 1)] \<and>
     intents self =
       [SetHoldings ''E'' (21 / 500) False, SetHoldings ''A'' (21 / 500) False,
        SetHoldings ''F'' (21 / 500) False, Liquidate ''E'', Liquidate ''A'',
        SetHoldings ''G'' (21 / 500) False] \<and>
     open_positions (intents self) = {''F'', ''G''}"
proof -
  have "\<exists>self. run Initialize example_events = Inr self \<and>
     purchased_securities self = [(''F'', 2), (''G'', 1)] \<and>
     intents self =
       [SetHoldings ''E'' (21 / 500) False, SetHoldings ''A'' (21 / 500) False,
        SetHoldings ''F'' (21 / 500) False, Liquidate ''E'', Liquidate ''A'',
        SetHoldings ''G'' (21 / 500) False]"
    by (simp add: example_events_def example_coarse_def example_changes_def active_def
        warming_def Initialize_def py_int_def py_round_def CoarseFilterFunction_def
        OnSecuritiesChanged_def sell_securities_def dict_pop_def dict_in_def dict_keys_def
        sort_eval Let_def)
  then obtain self where ok: "run Initialize example_events = Inr self"
    and led: "purchased_securities self = [(''F'', 2), (''G'', 1)]"
    and log: "intents self =
       [SetHoldings ''E'' (21 / 500) False, SetHoldings ''A'' (21 / 500) False,
        SetHoldings ''F'' (21 / 500) False, Liquidate ''E'', Liquidate ''A'',
        SetHoldings ''G'' (21 / 500) False]"
    by blast
  from ledger_bijection [of example_events self] ok
  have "set (dict_keys (purchased_securities self)) = open_positions (intents self)"
    by blast
  with led have "open_positions (intents self) = {''F'', ''G''}"
    by (simp add: dict_keys_def)
  with ok led log show ?thesis by blast
qed

section \<open>When the handler can read the month\<close>

text \<open>
  C10. \<^verbatim>\<open>self.month\<close> is assigned only by a call of the coarse filter after warm-up. In a
  run that starts with \<^verbatim>\<open>Initialize\<close> and has raised nothing so far, the handler raises
  \<^verbatim>\<open>AttributeError\<close> exactly when no such call has happened, and completes exactly when
  one has.
\<close>

theorem month_defined_iff_active_tick:
  "run Initialize evs = Inr self \<Longrightarrow>
   (month self = None) = (\<not> (\<exists>ev \<in> set evs. active_tick ev)) \<and>
   (OnSecuritiesChanged self h changes = Inl AttributeError) =
     (\<not> (\<exists>ev \<in> set evs. active_tick ev)) \<and>
   (\<exists>self'. OnSecuritiesChanged self h changes = Inr self') = (\<exists>ev \<in> set evs. active_tick ev)"
proof -
  assume r: "run Initialize evs = Inr self"
  have "month Initialize = None" by (simp add: Initialize_def Let_def)
  with run_month [OF r] have m: "(month self = None) = (\<not> (\<exists>ev \<in> set evs. active_tick ev))"
    by auto
  have "dict_wf (purchased_securities Initialize)"
    by (simp add: Initialize_def Let_def dict_wf_def dict_keys_def)
  from run_wf [OF r this] have wf: "dict_wf (purchased_securities self)" .
  have err: "(OnSecuritiesChanged self h changes = Inl AttributeError) = (month self = None)"
  proof (cases "month self")
    case None
    then show ?thesis by (simp add: OnSecuritiesChanged_def)
  next
    case (Some mm)
    from OnSecuritiesChanged_wf [OF Some wf] Some show ?thesis by simp
  qed
  have ok: "(\<exists>self'. OnSecuritiesChanged self h changes = Inr self') = (month self \<noteq> None)"
  proof (cases "month self")
    case None
    then show ?thesis by (simp add: OnSecuritiesChanged_def)
  next
    case (Some mm)
    from OnSecuritiesChanged_wf [OF Some wf] Some show ?thesis by simp
  qed
  from m err ok show ?thesis by simp
qed

theorem month_defined_iff_active_tick_witness:
  "run Initialize [CoarseTick (warming 12) example_coarse] = Inr Initialize \<and>
   OnSecuritiesChanged Initialize (active 1) example_changes = Inl AttributeError \<and>
   (\<exists>self. run Initialize
        [CoarseTick (warming 12) example_coarse, CoarseTick (active 1) example_coarse] = Inr self \<and>
      month self = Some 1 \<and>
      (\<exists>self'. OnSecuritiesChanged self (active 1) example_changes = Inr self'))"
proof -
  have r1: "run Initialize [CoarseTick (warming 12) example_coarse] = Inr Initialize"
    by (simp add: CoarseFilterFunction_def warming_def)
  from month_defined_iff_active_tick [OF r1, of "active 1" example_changes]
  have e1: "OnSecuritiesChanged Initialize (active 1) example_changes = Inl AttributeError"
    by (simp add: warming_def)
  have "\<exists>self. run Initialize
        [CoarseTick (warming 12) example_coarse, CoarseTick (active 1) example_coarse] = Inr self \<and>
      month self = Some 1"
    by (simp add: CoarseFilterFunction_def warming_def active_def Let_def)
  then obtain self where r2: "run Initialize
        [CoarseTick (warming 12) example_coarse, CoarseTick (active 1) example_coarse] = Inr self"
    and m: "month self = Some 1"
    by blast
  from month_defined_iff_active_tick [OF r2, of "active 1" example_changes]
  have "\<exists>self'. OnSecuritiesChanged self (active 1) example_changes = Inr self'"
    by (simp add: warming_def active_def)
  with r1 e1 r2 m show ?thesis by blast
qed

section \<open>The holding horizon\<close>

lemma month_of_year: "month_of (t + 12) = month_of t"
  by (simp add: month_of_def)

lemma month_of_next: "month_of (Suc t) \<noteq> month_of t"
  by (simp add: month_of_def mod_Suc)

lemma month_of_within_year:
  assumes "1 \<le> j" and "j \<le> 11"
  shows "month_of (t + j) \<noteq> month_of t"
proof
  assume "month_of (t + j) = month_of t"
  then have "(t + j) mod 12 = t mod 12" by (simp add: month_of_def)
  then have "12 dvd (t + j) - t" by (simp add: mod_eq_dvd_iff_nat)
  then have "12 dvd j" by simp
  then have "12 \<le> j" using assms(1) by (auto dest: dvd_imp_le)
  with assms(2) show False by simp
qed

lemma months_before_year: "months_before 12 (month_of t) = month_of t"
  by (simp add: months_before_def month_of_def)

lemma map_of_foldl_dict_set:
  "map_of (foldl (\<lambda>d x. dict_set d (Symbol x) v) d xs) k =
     (if k \<in> Symbol ` set xs then Some v else map_of d k)"
  by (induction xs arbitrary: d) (auto simp: map_of_dict_set)

lemma map_of_filter_month:
  "dict_wf d \<Longrightarrow>
   map_of (filter (\<lambda>kv. snd kv \<noteq> m) d) k = (if map_of d k = Some m then None else map_of d k)"
proof (induction d)
  case Nil
  show ?case by simp
next
  case (Cons kv d)
  obtain k' v' where kv: "kv = (k', v')" by (cases kv)
  from Cons.prems have wf: "dict_wf d" and fresh: "k' \<notin> fst ` set d"
    by (simp_all add: kv dict_wf_def dict_keys_def)
  from fresh have none: "map_of (filter (\<lambda>kv. snd kv \<noteq> m) d) k' = None"
    by (auto simp: map_of_eq_None_iff)
  from fresh have none': "map_of d k' = None"
    by (simp add: map_of_eq_None_iff)
  show ?case
  proof (cases "k = k'")
    case True
    with none none' show ?thesis by (simp add: kv)
  next
    case False
    with Cons.IH [OF wf] show ?thesis by (simp add: kv)
  qed
qed

lemma dict_in_map_of: "dict_in k d = (map_of d k \<noteq> None)"
  by (simp add: dict_in_def dict_keys_def map_of_eq_None_iff)

lemma due_keys_map_of: "dict_wf d \<Longrightarrow> (k \<in> set (due_keys d m)) = (map_of d k = Some m)"
proof -
  assume "dict_wf d"
  then have "distinct (map fst d)" by (simp add: dict_wf_def dict_keys_def)
  then have "(map_of d k = Some m) = ((k, m) \<in> set d)" by simp
  moreover have "(k \<in> set (due_keys d m)) = ((k, m) \<in> set d)"
    by (force simp: due_keys_def)
  ultimately show ?thesis by simp
qed

lemma set_due_keys: "set (due_keys d m) = {k. (k, m) \<in> set d}"
  by (force simp: due_keys_def)

lemma fine_ranker_not_held:
  "k \<in> set (FineFundamentalFunction self fine) \<Longrightarrow> \<not> dict_in k (purchased_securities self)"
proof -
  assume "k \<in> set (FineFundamentalFunction self fine)"
  then have "k \<in> set (map Symbol (filter (\<lambda>f. \<not> dict_in (Symbol f) (purchased_securities self))
                 (sorted_ROA fine)))"
    using set_py_slice_to by (fastforce simp: FineFundamentalFunction_def Let_def)
  then show ?thesis by auto
qed

lemma fine_ranker_reads:
  "purchased_securities a = purchased_securities b \<Longrightarrow>
   NumberSecuritiesPerMonth a = NumberSecuritiesPerMonth b \<Longrightarrow>
   FineFundamentalFunction a fine = FineFundamentalFunction b fine"
  by (simp add: FineFundamentalFunction_def)

text \<open>A monthly cycle in a month other than the last processed one, on a well-formed ledger.\<close>

lemma monthly_cycle_eq:
  assumes wf: "dict_wf (purchased_securities self)" and new: "lastMonth self \<noteq> month_of t"
  shows "monthly_cycle t coarse fine self =
    Inr (buy_all (map (\<lambda>s. \<lparr>Symbol = s\<rparr>) (FineFundamentalFunction self fine))
           \<lparr>IsWarmingUp = False, Time_month = month_of t\<rparr>
           (self\<lparr>month := Some (month_of t), lastMonth := month_of t,
                 intents := intents self @
                   map Liquidate (due_keys (purchased_securities self) (month_of t)),
                 purchased_securities :=
                   filter (\<lambda>kv. snd kv \<noteq> month_of t) (purchased_securities self)\<rparr>))"
proof -
  let ?h = "\<lparr>IsWarmingUp = False, Time_month = month_of t\<rparr>"
  let ?s1 = "self\<lparr>month := Some (month_of t), lastMonth := month_of t\<rparr>"
  from new have c: "\<exists>syms. CoarseFilterFunction self ?h coarse = (Selected syms, ?s1)"
    by (simp add: CoarseFilterFunction_def Let_def)
  have f: "FineFundamentalFunction ?s1 fine = FineFundamentalFunction self fine"
    by (rule fine_ranker_reads) simp_all
  have m: "month ?s1 = Some (month_of t)" by simp
  from wf have wf1: "dict_wf (purchased_securities ?s1)" by simp
  from c obtain syms where "CoarseFilterFunction self ?h coarse = (Selected syms, ?s1)" by blast
  then have "monthly_cycle t coarse fine self =
      OnSecuritiesChanged ?s1 ?h
        \<lparr>AddedSecurities = map (\<lambda>s. \<lparr>Symbol = s\<rparr>) (FineFundamentalFunction self fine)\<rparr>"
    by (simp add: monthly_cycle_def f)
  also have "\<dots> = Inr (buy_all (map (\<lambda>s. \<lparr>Symbol = s\<rparr>) (FineFundamentalFunction self fine)) ?h
       (?s1\<lparr>intents := intents ?s1 @
               map Liquidate (due_keys (purchased_securities ?s1) (month_of t)),
             purchased_securities :=
               filter (\<lambda>kv. snd kv \<noteq> month_of t) (purchased_securities ?s1)\<rparr>))"
    using OnSecuritiesChanged_wf [OF m wf1, of ?h
        "\<lparr>AddedSecurities = map (\<lambda>s. \<lparr>Symbol = s\<rparr>) (FineFundamentalFunction self fine)\<rparr>"]
    by simp
  finally show ?thesis by simp
qed

lemma monthly_cycle_facts:
  assumes wf: "dict_wf (purchased_securities self)" and new: "lastMonth self \<noteq> month_of t"
  shows "\<exists>b. monthly_cycle t coarse fine self = Inr b \<and>
    dict_wf (purchased_securities b) \<and> lastMonth b = month_of t \<and>
    MonthsToKeepSecurities b = MonthsToKeepSecurities self \<and>
    issued_since self b =
      map Liquidate (due_keys (purchased_securities self) (month_of t)) @
      map (\<lambda>s. SetHoldings s (percent_holding self) False) (FineFundamentalFunction self fine) \<and>
    (\<forall>k. map_of (purchased_securities b) k =
      (if k \<in> set (FineFundamentalFunction self fine) then Some (month_of t)
       else if map_of (purchased_securities self) k = Some (month_of t) then None
       else map_of (purchased_securities self) k))"
proof -
  let ?h = "\<lparr>IsWarmingUp = False, Time_month = month_of t\<rparr>"
  let ?added = "map (\<lambda>s. \<lparr>Symbol = s\<rparr>) (FineFundamentalFunction self fine)"
  let ?mid = "self\<lparr>month := Some (month_of t), lastMonth := month_of t,
                 intents := intents self @
                   map Liquidate (due_keys (purchased_securities self) (month_of t)),
                 purchased_securities :=
                   filter (\<lambda>kv. snd kv \<noteq> month_of t) (purchased_securities self)\<rparr>"
  let ?b = "buy_all ?added ?h ?mid"
  have syms: "Symbol ` set ?added = set (FineFundamentalFunction self fine)"
    by (auto simp: image_iff)
  have run: "monthly_cycle t coarse fine self = Inr ?b"
    by (rule monthly_cycle_eq [OF wf new])
  moreover have "dict_wf (purchased_securities ?b)"
    using wf by (simp add: buy_all_ledger wf_foldl_dict_set dict_wf_filter)
  moreover have "lastMonth ?b = month_of t"
    by (simp add: buy_all_frame)
  moreover have "MonthsToKeepSecurities ?b = MonthsToKeepSecurities self"
    by (simp add: buy_all_frame)
  moreover have "issued_since self ?b =
      map Liquidate (due_keys (purchased_securities self) (month_of t)) @
      map (\<lambda>s. SetHoldings s (percent_holding self) False) (FineFundamentalFunction self fine)"
    by (simp add: issued_since_def buy_all_intents comp_def)
  moreover have "map_of (purchased_securities ?b) k =
      (if k \<in> set (FineFundamentalFunction self fine) then Some (month_of t)
       else if map_of (purchased_securities self) k = Some (month_of t) then None
       else map_of (purchased_securities self) k)" for k
    using map_of_foldl_dict_set [of "month_of t"
        "filter (\<lambda>kv. snd kv \<noteq> month_of t) (purchased_securities self)" ?added k]
      map_of_filter_month [OF wf, of "month_of t" k] syms
    by (simp add: buy_all_ledger)
  ultimately show ?thesis by blast
qed

text \<open>
  A symbol the fine ranker selects in the cycle of month \<open>M\<close> is in the ledger, under that
  month, after each of the cycles of the months \<open>M, \<dots>, M + 11\<close>.
\<close>

lemma held_through_window:
  assumes wf: "dict_wf (purchased_securities self)"
    and new: "lastMonth self \<noteq> month_of M"
    and acq: "k \<in> set (FineFundamentalFunction self (snd (inp M)))"
  shows "1 \<le> j \<Longrightarrow> j \<le> 12 \<Longrightarrow>
    \<exists>a. run_cycles inp M j self = Inr a \<and> dict_wf (purchased_securities a) \<and>
      lastMonth a = month_of (M + j - 1) \<and>
      map_of (purchased_securities a) k = Some (month_of M)"
proof (induction j)
  case 0
  then show ?case by simp
next
  case (Suc j)
  show ?case
  proof (cases "j = 0")
    case True
    from monthly_cycle_facts [OF wf new, of "fst (inp M)" "snd (inp M)"] acq
    obtain b where "monthly_cycle M (fst (inp M)) (snd (inp M)) self = Inr b"
      and "dict_wf (purchased_securities b)" and "lastMonth b = month_of M"
      and "map_of (purchased_securities b) k = Some (month_of M)"
      by auto
    with True show ?thesis by simp
  next
    case False
    with Suc.prems have j: "1 \<le> j" "j \<le> 11" by simp_all
    with Suc.IH obtain a where a: "run_cycles inp M j self = Inr a"
      and wfa: "dict_wf (purchased_securities a)"
      and last: "lastMonth a = month_of (M + j - 1)"
      and held: "map_of (purchased_securities a) k = Some (month_of M)"
      by auto
    from j have "Suc (M + j - 1) = M + j" by simp
    with month_of_next [of "M + j - 1"] last have newa: "lastMonth a \<noteq> month_of (M + j)"
      by simp
    from held have "dict_in k (purchased_securities a)" by (simp add: dict_in_map_of)
    with fine_ranker_not_held [of k a "snd (inp (M + j))"]
    have notsel: "k \<notin> set (FineFundamentalFunction a (snd (inp (M + j))))" by blast
    from month_of_within_year [OF j, of M] held
    have notdue: "map_of (purchased_securities a) k \<noteq> Some (month_of (M + j))" by simp
    from monthly_cycle_facts [OF wfa newa, of "fst (inp (M + j))" "snd (inp (M + j))"]
    obtain b where b: "monthly_cycle (M + j) (fst (inp (M + j))) (snd (inp (M + j))) a = Inr b"
      and wfb: "dict_wf (purchased_securities b)" and lastb: "lastMonth b = month_of (M + j)"
      and mapb: "\<forall>x. map_of (purchased_securities b) x =
        (if x \<in> set (FineFundamentalFunction a (snd (inp (M + j)))) then Some (month_of (M + j))
         else if map_of (purchased_securities a) x = Some (month_of (M + j)) then None
         else map_of (purchased_securities a) x)"
      by blast
    from mapb notsel notdue held have "map_of (purchased_securities b) k = Some (month_of M)"
      by simp
    with a b wfb lastb show ?thesis by simp
  qed
qed

text \<open>
  C3. Let the fine ranker select a symbol in the cycle of month \<open>M\<close>, and let a cycle run in
  each following month. With the holding horizon of \<^verbatim>\<open>Initialize\<close> (12 months), in each of
  the cycles of the months \<open>M + 1, \<dots>, M + 12\<close> the symbol is in the ledger when the cycle
  starts; the cycle issues its liquidation intent exactly when it is the cycle of month
  \<open>M + 12\<close>, and the symbol is in the ledger after the cycle exactly when it is an earlier
  one. In each of these cycles the sell step liquidates exactly the entries stored under the
  calendar month that lies the holding horizon before the month of the cycle.
\<close>

theorem horizon_enforcement:
  assumes wf: "dict_wf (purchased_securities self)"
    and cfg: "MonthsToKeepSecurities self = MonthsToKeepSecurities Initialize"
    and new: "lastMonth self \<noteq> month_of M"
    and acq: "k \<in> set (FineFundamentalFunction self (snd (inp M)))"
  shows "\<forall>j \<in> {1..nat (MonthsToKeepSecurities self)}. \<exists>a b.
      run_cycles inp M j self = Inr a \<and> run_cycles inp M (Suc j) self = Inr b \<and>
      dict_in k (purchased_securities a) \<and>
      (Liquidate k \<in> set (issued_since a b)) = (j = nat (MonthsToKeepSecurities self)) \<and>
      dict_in k (purchased_securities b) = (j < nat (MonthsToKeepSecurities self)) \<and>
      {x. Liquidate x \<in> set (issued_since a b)} =
        {x. (x, months_before (MonthsToKeepSecurities self) (month_of (M + j)))
              \<in> set (purchased_securities a)}"
proof
  fix j assume "j \<in> {1..nat (MonthsToKeepSecurities self)}"
  moreover from cfg have horizon: "MonthsToKeepSecurities self = 12"
    by (simp add: Initialize_def Let_def)
  ultimately have j: "1 \<le> j" "j \<le> 12" by simp_all
  from held_through_window [where inp = inp and M = M, OF wf new acq j] obtain a
    where a: "run_cycles inp M j self = Inr a"
      and wfa: "dict_wf (purchased_securities a)"
      and last: "lastMonth a = month_of (M + j - 1)"
      and held: "map_of (purchased_securities a) k = Some (month_of M)"
    by blast
  from j have "Suc (M + j - 1) = M + j" by simp
  with month_of_next [of "M + j - 1"] last have newa: "lastMonth a \<noteq> month_of (M + j)"
    by simp
  from held have in_a: "dict_in k (purchased_securities a)" by (simp add: dict_in_map_of)
  with fine_ranker_not_held [of k a "snd (inp (M + j))"]
  have notsel: "k \<notin> set (FineFundamentalFunction a (snd (inp (M + j))))" by blast
  have due: "(month_of (M + j) = month_of M) = (j = 12)"
  proof (cases "j = 12")
    case True
    then show ?thesis by (simp add: month_of_year)
  next
    case False
    with j have "j \<le> 11" by simp
    from month_of_within_year [OF j(1) this, of M] False show ?thesis by simp
  qed
  from monthly_cycle_facts [OF wfa newa, of "fst (inp (M + j))" "snd (inp (M + j))"]
  obtain b where b: "monthly_cycle (M + j) (fst (inp (M + j))) (snd (inp (M + j))) a = Inr b"
    and log: "issued_since a b =
      map Liquidate (due_keys (purchased_securities a) (month_of (M + j))) @
      map (\<lambda>s. SetHoldings s (percent_holding a) False)
        (FineFundamentalFunction a (snd (inp (M + j))))"
    and mapb: "\<forall>x. map_of (purchased_securities b) x =
        (if x \<in> set (FineFundamentalFunction a (snd (inp (M + j)))) then Some (month_of (M + j))
         else if map_of (purchased_securities a) x = Some (month_of (M + j)) then None
         else map_of (purchased_securities a) x)"
    by blast
  from a b have run_b: "run_cycles inp M (Suc j) self = Inr b" by simp
  have liq: "{x. Liquidate x \<in> set (issued_since a b)} =
      set (due_keys (purchased_securities a) (month_of (M + j)))"
    by (auto simp: log)
  have "(Liquidate k \<in> set (issued_since a b)) =
      (k \<in> set (due_keys (purchased_securities a) (month_of (M + j))))"
    using liq by blast
  also have "\<dots> = (map_of (purchased_securities a) k = Some (month_of (M + j)))"
    by (rule due_keys_map_of [OF wfa])
  also have "\<dots> = (j = 12)"
    using held due by auto
  finally have c1: "(Liquidate k \<in> set (issued_since a b)) = (j = 12)" .
  from mapb notsel held due
  have "map_of (purchased_securities b) k = (if j = 12 then None else Some (month_of M))"
    by auto
  with j have c2: "dict_in k (purchased_securities b) = (j < 12)"
    by (auto simp: dict_in_map_of)
  have c3: "{x. Liquidate x \<in> set (issued_since a b)} =
      {x. (x, months_before 12 (month_of (M + j))) \<in> set (purchased_securities a)}"
    by (simp only: liq set_due_keys months_before_year)
  from a run_b in_a c1 c2 c3 horizon
  show "\<exists>a b.
      run_cycles inp M j self = Inr a \<and> run_cycles inp M (Suc j) self = Inr b \<and>
      dict_in k (purchased_securities a) \<and>
      (Liquidate k \<in> set (issued_since a b)) = (j = nat (MonthsToKeepSecurities self)) \<and>
      dict_in k (purchased_securities b) = (j < nat (MonthsToKeepSecurities self)) \<and>
      {x. Liquidate x \<in> set (issued_since a b)} =
        {x. (x, months_before (MonthsToKeepSecurities self) (month_of (M + j)))
              \<in> set (purchased_securities a)}"
    by auto
qed

theorem horizon_enforcement_witness:
  "FineFundamentalFunction Initialize (snd (example_inp 0)) = [''D'', ''B''] \<and>
   (\<exists>a b. run_cycles example_inp 0 11 Initialize = Inr a \<and>
      run_cycles example_inp 0 (Suc 11) Initialize = Inr b \<and>
      dict_in ''D'' (purchased_securities a) \<and>
      Liquidate ''D'' \<notin> set (issued_since a b) \<and>
      dict_in ''D'' (purchased_securities b)) \<and>
   (\<exists>a b. run_cycles example_inp 0 12 Initialize = Inr a \<and>
      run_cycles example_inp 0 (Suc 12) Initialize = Inr b \<and>
      dict_in ''D'' (purchased_securities a) \<and>
      Liquidate ''D'' \<in> set (issued_since a b) \<and>
      \<not> dict_in ''D'' (purchased_securities b))"
proof -
  have out: "FineFundamentalFunction Initialize (snd (example_inp 0)) = [''D'', ''B'']"
    by (simp add: example_inp_def FineFundamentalFunction_def sorted_ROA_def filtered_ROA_def
        sort_eval py_slice_to_def dict_in_def dict_keys_def Initialize_def py_int_def
        example_fine_def stock_def Let_def)
  have wf: "dict_wf (purchased_securities Initialize)"
    by (simp add: Initialize_def Let_def dict_wf_def dict_keys_def)
  have new: "lastMonth Initialize \<noteq> month_of 0"
    by (simp add: Initialize_def Let_def month_of_def)
  have acq: "''D'' \<in> set (FineFundamentalFunction Initialize (snd (example_inp 0)))"
    by (simp add: out)
  have horizon: "nat (MonthsToKeepSecurities Initialize) = 12"
    by (simp add: Initialize_def Let_def)
  note window = horizon_enforcement [where inp = example_inp and M = 0 and self = Initialize,
      OF wf refl new acq, unfolded horizon]
  from window have "\<exists>a b. run_cycles example_inp 0 11 Initialize = Inr a \<and>
      run_cycles example_inp 0 (Suc 11) Initialize = Inr b \<and>
      dict_in ''D'' (purchased_securities a) \<and>
      (Liquidate ''D'' \<in> set (issued_since a b)) = (11 = (12::nat)) \<and>
      dict_in ''D'' (purchased_securities b) = (11 < (12::nat)) \<and>
      {x. Liquidate x \<in> set (issued_since a b)} =
        {x. (x, months_before (MonthsToKeepSecurities Initialize) (month_of (0 + 11)))
              \<in> set (purchased_securities a)}"
    by (rule bspec) simp
  then have c11: "\<exists>a b. run_cycles example_inp 0 11 Initialize = Inr a \<and>
      run_cycles example_inp 0 (Suc 11) Initialize = Inr b \<and>
      dict_in ''D'' (purchased_securities a) \<and>
      Liquidate ''D'' \<notin> set (issued_since a b) \<and>
      dict_in ''D'' (purchased_securities b)"
    by auto
  from window have "\<exists>a b. run_cycles example_inp 0 12 Initialize = Inr a \<and>
      run_cycles example_inp 0 (Suc 12) Initialize = Inr b \<and>
      dict_in ''D'' (purchased_securities a) \<and>
      (Liquidate ''D'' \<in> set (issued_since a b)) = (12 = (12::nat)) \<and>
      dict_in ''D'' (purchased_securities b) = (12 < (12::nat)) \<and>
      {x. Liquidate x \<in> set (issued_since a b)} =
        {x. (x, months_before (MonthsToKeepSecurities Initialize) (month_of (0 + 12)))
              \<in> set (purchased_securities a)}"
    by (rule bspec) simp
  then have c12: "\<exists>a b. run_cycles example_inp 0 12 Initialize = Inr a \<and>
      run_cycles example_inp 0 (Suc 12) Initialize = Inr b \<and>
      dict_in ''D'' (purchased_securities a) \<and>
      Liquidate ''D'' \<in> set (issued_since a b) \<and>
      \<not> dict_in ''D'' (purchased_securities b)"
    by auto
  from out c11 c12 show ?thesis by blast
qed

end
